theory Spec2Isabelle
  imports Main "HOL-Library.Word"
begin

section \<open>The sharded buffer cache (Lab8\_locks/kernel/bio.c)\<close>

text \<open>
  The cache is an array of \<open>BUCKETSIZE\<close> buckets. Each bucket owns \<open>BUFFERSIZE\<close> slots
  (\<open>struct buf\<close>) and a circular doubly linked list anchored at a sentinel \<open>head\<close>.
  A slot is named by its index in the pool: \<open>bcache[i].buf[j]\<close> is slot
  \<open>i * BUFFERSIZE + j\<close>. The list of bucket \<open>i\<close> is the list of the slots met when
  walking from \<open>head.next\<close> to \<open>head.prev\<close>; a walk over \<open>prev\<close> pointers reads that
  list backwards. All \<open>uint\<close> and \<open>int\<close> fields are 32-bit words, so that
  \<open>refcnt = -1\<close> and \<open>0 - 1\<close> are the same value whichever of the two types
  \<open>buf.h\<close> gives to \<open>refcnt\<close>.

  The checkout lock \<open>b->lock\<close> is only touched through the sleep-lock interface
  (\<open>acquiresleep\<close>, \<open>releasesleep\<close>, \<open>holdingsleep\<close>); its state is the table
  \<open>holder\<close>, from slots to the process holding the lock. Spin locks delimit the
  critical sections; every function below runs its critical sections without
  interference, and a caller that would have to sleep on a checkout lock is reported
  as such together with the state it leaves behind.
\<close>

type_synonym u32 = "32 word"
type_synonym payload = "nat \<Rightarrow> 8 word"

definition BUCKETSIZE :: nat where
  "BUCKETSIZE = 13"

definition BUFFERSIZE :: nat where
  "BUFFERSIZE = 5"

record buf =
  valid :: bool
  dev :: u32
  blockno :: u32
  refcnt :: u32
  ticks :: u32
  data :: payload

record bcache =
  bufs :: "nat \<Rightarrow> buf"
  buckets :: "nat list list"
  holder :: "nat \<Rightarrow> nat option"
  disk :: "u32 \<Rightarrow> u32 \<Rightarrow> payload"
  clock :: u32

text \<open>\<open>clock\<close> is the kernel's \<open>extern uint ticks\<close>; \<open>disk\<close> is what
  \<open>virtio_disk_rw\<close> reads and writes.\<close>

definition hash :: "u32 \<Rightarrow> nat" where
  "hash bno = unat bno mod BUCKETSIZE"

text \<open>Memory as the loader leaves it: every field of every slot is zero.\<close>

definition zero_buf :: buf where
  "zero_buf = \<lparr>valid = False, dev = 0, blockno = 0, refcnt = 0, ticks = 0, data = (\<lambda>_. 0)\<rparr>"

definition zeroed :: "(u32 \<Rightarrow> u32 \<Rightarrow> payload) \<Rightarrow> u32 \<Rightarrow> bcache" where
  "zeroed dsk t =
     \<lparr>bufs = (\<lambda>_. zero_buf), buckets = replicate BUCKETSIZE [], holder = (\<lambda>_. None),
      disk = dsk, clock = t\<rparr>"

text \<open>\<open>binit\<close>: each slot of a bucket is linked in right behind the head, so the
  last slot of the array ends up first in the list.\<close>

definition binit :: "bcache \<Rightarrow> bcache" where
  "binit s =
     s\<lparr>buckets := map (\<lambda>i. fold (\<lambda>j l. (i * BUFFERSIZE + j) # l) [0..<BUFFERSIZE] [])
                     [0..<BUCKETSIZE],
       holder := (\<lambda>_. None)\<rparr>"

subsection \<open>Victim selection\<close>

text \<open>The scan of one bucket, from \<open>head.prev\<close> backwards. The accumulator is
  \<open>(least, least_b, least_buck)\<close>, the last two as one optional pair.\<close>

definition scan_step :: "(nat \<Rightarrow> buf) \<Rightarrow> nat \<Rightarrow> nat \<Rightarrow> u32 \<times> (nat \<times> nat) option
    \<Rightarrow> u32 \<times> (nat \<times> nat) option" where
  "scan_step bs i b acc =
     (if refcnt (bs b) = 0 \<and> ticks (bs b) < fst acc then (ticks (bs b), Some (b, i)) else acc)"

definition scan_bucket :: "bcache \<Rightarrow> nat \<Rightarrow> u32 \<times> (nat \<times> nat) option
    \<Rightarrow> u32 \<times> (nat \<times> nat) option" where
  "scan_bucket s i acc = fold (scan_step (bufs s) i) (rev (buckets s ! i)) acc"

definition victim_scan :: "bcache \<Rightarrow> nat \<Rightarrow> (nat \<times> nat) option" where
  "victim_scan s buckno =
     snd (fold (\<lambda>i acc. if i = buckno then acc else scan_bucket s i acc) [0..<BUCKETSIZE]
            (0xffffffff, None))"

text \<open>The second half of \<open>select_victim\<close>: panic without a candidate, otherwise
  re-check the candidate and claim it. The state it runs on is the state at the
  moment the candidate's bucket lock is taken again.\<close>

definition victim_claim :: "bcache \<Rightarrow> (nat \<times> nat) option \<Rightarrow> string + (bcache \<times> nat option)" where
  "victim_claim s cand =
     (case cand of
        None \<Rightarrow> Inl ''bget: no buffers''
      | Some (b, least_buck) \<Rightarrow>
          if refcnt (bufs s b) \<noteq> 0 then Inr (s, None)
          else Inr (s\<lparr>bufs := (bufs s)(b := (bufs s b)\<lparr>refcnt := - 1\<rparr>)\<rparr>, Some b))"

definition select_victim :: "bcache \<Rightarrow> nat \<Rightarrow> string + (bcache \<times> nat option)" where
  "select_victim s buckno = victim_claim s (victim_scan s buckno)"

lemma victim_scan_fold_free:
  "snd (fold (scan_step bs i) xs acc) = Some (b, j) \<Longrightarrow> snd acc = Some (b, j) \<or> refcnt (bs b) = 0"
proof (induction xs arbitrary: acc)
  case Nil
  then show ?case by simp
next
  case (Cons a xs)
  from Cons.prems have "snd (fold (scan_step bs i) xs (scan_step bs i a acc)) = Some (b, j)"
    by simp
  from Cons.IH [OF this] show ?case
    by (auto simp: scan_step_def split: if_splits)
qed

lemma scan_bucket_free:
  "snd (scan_bucket s i acc) = Some (b, j) \<Longrightarrow> snd acc = Some (b, j) \<or> refcnt (bufs s b) = 0"
  unfolding scan_bucket_def by (rule victim_scan_fold_free)

lemma scan_buckets_free:
  "snd (fold (\<lambda>i acc. if i = buckno then acc else scan_bucket s i acc) is acc) = Some (b, j)
   \<Longrightarrow> snd acc = Some (b, j) \<or> refcnt (bufs s b) = 0"
proof (induction "is" arbitrary: acc)
  case Nil
  then show ?case by simp
next
  case (Cons i "is")
  show ?case
  proof (cases "i = buckno")
    case True
    with Cons show ?thesis by simp
  next
    case False
    with Cons.prems have "snd (fold (\<lambda>i acc. if i = buckno then acc else scan_bucket s i acc) is
        (scan_bucket s i acc)) = Some (b, j)"
      by simp
    from Cons.IH [OF this] show ?thesis
      using scan_bucket_free by blast
  qed
qed

lemma victim_scan_free: "victim_scan s buckno = Some (b, j) \<Longrightarrow> refcnt (bufs s b) = 0"
  unfolding victim_scan_def using scan_buckets_free [of buckno s "[0..<BUCKETSIZE]" "(0xffffffff, None)" b j]
  by simp

lemma select_victim_no_retry: "select_victim s buckno \<noteq> Inr (s', None)"
  by (auto simp: select_victim_def victim_claim_def dest: victim_scan_free split: option.splits)

subsection \<open>Lookup and checkout\<close>

text \<open>The first loop of \<open>bget\<close>, over \<open>next\<close> pointers: a slot of the wanted identity
  whose \<open>refcnt\<close> is \<open>-1\<close> is passed over.\<close>

fun find_cached :: "(nat \<Rightarrow> buf) \<Rightarrow> u32 \<Rightarrow> u32 \<Rightarrow> nat list \<Rightarrow> nat option" where
  "find_cached bs d n [] = None"
| "find_cached bs d n (b # rest) =
     (if dev (bs b) = d \<and> blockno (bs b) = n
      then (if refcnt (bs b) = - 1 then find_cached bs d n rest else Some b)
      else find_cached bs d n rest)"

text \<open>The second loop, over \<open>prev\<close> pointers: it is applied to the reversed list.\<close>

fun find_free :: "(nat \<Rightarrow> buf) \<Rightarrow> nat list \<Rightarrow> nat option" where
  "find_free bs [] = None"
| "find_free bs (b # rest) = (if refcnt (bs b) = 0 then Some b else find_free bs rest)"

text \<open>\<open>while (least_b == 0) least_b = select_victim(buckno);\<close>\<close>

function steal_loop :: "bcache \<Rightarrow> nat \<Rightarrow> string + (bcache \<times> nat)" where
  "steal_loop s buckno =
     (case select_victim s buckno of
        Inl msg \<Rightarrow> Inl msg
      | Inr (s', None) \<Rightarrow> steal_loop s' buckno
      | Inr (s', Some b) \<Rightarrow> Inr (s', b))"
  by pat_completeness auto
termination
  by (relation "{}") (auto simp: select_victim_no_retry)

declare steal_loop.simps [simp del]

text \<open>\<open>acquiresleep\<close> by process \<open>p\<close>: \<open>None\<close> when the lock is held, and the caller
  has to sleep.\<close>

definition acquiresleep :: "bcache \<Rightarrow> nat \<Rightarrow> nat \<Rightarrow> bcache option" where
  "acquiresleep s p b = (if holder s b = None then Some (s\<lparr>holder := (holder s)(b \<mapsto> p)\<rparr>) else None)"

definition holdingsleep :: "bcache \<Rightarrow> nat \<Rightarrow> nat \<Rightarrow> bool" where
  "holdingsleep s p b = (holder s b = Some p)"

definition releasesleep :: "bcache \<Rightarrow> nat \<Rightarrow> bcache" where
  "releasesleep s b = s\<lparr>holder := (holder s)(b := None)\<rparr>"

datatype checkout =
    Panic string
  | Sleeping bcache nat
  | Locked bcache nat

definition checkout_slot :: "bcache \<Rightarrow> nat \<Rightarrow> nat \<Rightarrow> checkout" where
  "checkout_slot s p b = (case acquiresleep s p b of None \<Rightarrow> Sleeping s b | Some s' \<Rightarrow> Locked s' b)"

text \<open>Unlinking a slot (\<open>b->prev->next = b->next; b->next->prev = b->prev\<close>) takes it
  out of the list it is on, whichever bucket that is.\<close>

definition unlink :: "nat \<Rightarrow> nat list list \<Rightarrow> nat list list" where
  "unlink b bks = map (removeAll b) bks"

definition link_head :: "nat \<Rightarrow> nat \<Rightarrow> nat list list \<Rightarrow> nat list list" where
  "link_head buckno b bks = bks[buckno := b # bks ! buckno]"

definition link_tail :: "nat \<Rightarrow> nat \<Rightarrow> nat list list \<Rightarrow> nat list list" where
  "link_tail buckno b bks = bks[buckno := bks ! buckno @ [b]]"

definition bget_hit :: "bcache \<Rightarrow> nat \<Rightarrow> bcache" where
  "bget_hit s b =
     s\<lparr>bufs := (bufs s)(b := (bufs s b)\<lparr>refcnt := refcnt (bufs s b) + 1, ticks := clock s\<rparr>)\<rparr>"

definition bget_local :: "bcache \<Rightarrow> u32 \<Rightarrow> u32 \<Rightarrow> nat \<Rightarrow> bcache" where
  "bget_local s d n b =
     s\<lparr>bufs := (bufs s)(b := (bufs s b)\<lparr>dev := d, blockno := n, valid := False, refcnt := 1\<rparr>)\<rparr>"

definition bget_move :: "bcache \<Rightarrow> u32 \<Rightarrow> u32 \<Rightarrow> nat \<Rightarrow> nat \<Rightarrow> bcache" where
  "bget_move s d n buckno b =
     s\<lparr>bufs := (bufs s)(b := (bufs s b)\<lparr>dev := d, blockno := n, valid := False, refcnt := 1,
                                         ticks := clock s\<rparr>),
       buckets := link_tail buckno b (unlink b (buckets s))\<rparr>"

definition bget :: "bcache \<Rightarrow> nat \<Rightarrow> u32 \<Rightarrow> u32 \<Rightarrow> checkout" where
  "bget s p d n =
     (let buckno = hash n in
      case find_cached (bufs s) d n (buckets s ! buckno) of
        Some b \<Rightarrow> checkout_slot (bget_hit s b) p b
      | None \<Rightarrow>
          (case find_free (bufs s) (rev (buckets s ! buckno)) of
             Some b \<Rightarrow> checkout_slot (bget_local s d n b) p b
           | None \<Rightarrow>
               (case steal_loop s buckno of
                  Inl msg \<Rightarrow> Panic msg
                | Inr (s', b) \<Rightarrow> checkout_slot (bget_move s' d n buckno b) p b)))"

text \<open>The rest of \<open>bread\<close>, once \<open>bget\<close> has returned the locked slot.\<close>

definition bread_fill :: "bcache \<Rightarrow> nat \<Rightarrow> bcache" where
  "bread_fill s b =
     (if \<not> valid (bufs s b)
      then s\<lparr>bufs := (bufs s)(b := (bufs s b)\<lparr>data := disk s (dev (bufs s b)) (blockno (bufs s b)),
                                              valid := True\<rparr>)\<rparr>
      else s)"

definition bread :: "bcache \<Rightarrow> nat \<Rightarrow> u32 \<Rightarrow> u32 \<Rightarrow> checkout" where
  "bread s p d n =
     (case bget s p d n of
        Locked s' b \<Rightarrow> Locked (bread_fill s' b) b
      | r \<Rightarrow> r)"

definition bwrite :: "bcache \<Rightarrow> nat \<Rightarrow> nat \<Rightarrow> string + bcache" where
  "bwrite s p b =
     (if \<not> holdingsleep s p b then Inl ''bwrite''
      else Inr (s\<lparr>disk := (disk s)(dev (bufs s b) :=
                    (disk s (dev (bufs s b)))(blockno (bufs s b) := data (bufs s b)))\<rparr>))"

definition brelse :: "bcache \<Rightarrow> nat \<Rightarrow> nat \<Rightarrow> string + bcache" where
  "brelse s p b =
     (if \<not> holdingsleep s p b then Inl ''brelse''
      else
        let s1 = releasesleep s b;
            buckno = hash (blockno (bufs s1 b))
        in if refcnt (bufs s1 b) = - 1 then Inl ''brelse: refcnt == -1''
           else
             let s2 = s1\<lparr>bufs := (bufs s1)(b := (bufs s1 b)\<lparr>refcnt := refcnt (bufs s1 b) - 1\<rparr>)\<rparr>
             in if refcnt (bufs s2 b) = 0
                then Inr (s2\<lparr>buckets := link_head buckno b (unlink b (buckets s2))\<rparr>)
                else Inr s2)"

definition bpin :: "bcache \<Rightarrow> nat \<Rightarrow> bcache" where
  "bpin s b = s\<lparr>bufs := (bufs s)(b := (bufs s b)\<lparr>refcnt := refcnt (bufs s b) + 1\<rparr>)\<rparr>"

definition bunpin :: "bcache \<Rightarrow> nat \<Rightarrow> bcache" where
  "bunpin s b = s\<lparr>bufs := (bufs s)(b := (bufs s b)\<lparr>refcnt := refcnt (bufs s b) - 1\<rparr>)\<rparr>"

subsection \<open>Runs of cache operations\<close>

text \<open>
  An operation runs to completion before the next one starts. \<open>Wake p b\<close> is the
  second half of a \<open>bget\<close> that went to sleep on the checkout lock of \<open>b\<close>:
  the sleeper tries the lock again; \<open>Wake_read\<close> is the same inside \<open>bread\<close>.
  \<open>Tick\<close> is the clock interrupt. A panic ends the run.
\<close>

datatype op =
    Get nat u32 u32
  | Read nat u32 u32
  | Wake nat nat
  | Wake_read nat nat
  | Write nat nat
  | Release nat nat
  | Pin nat
  | Unpin nat
  | Tick

definition after :: "checkout \<Rightarrow> bcache option" where
  "after r = (case r of Panic msg \<Rightarrow> None | Sleeping s b \<Rightarrow> Some s | Locked s b \<Rightarrow> Some s)"

definition returned :: "checkout \<Rightarrow> nat option" where
  "returned r = (case r of Panic msg \<Rightarrow> None | Sleeping s b \<Rightarrow> Some b | Locked s b \<Rightarrow> Some b)"

definition no_panic :: "string + bcache \<Rightarrow> bcache option" where
  "no_panic r = (case r of Inl msg \<Rightarrow> None | Inr s \<Rightarrow> Some s)"

fun step :: "bcache \<Rightarrow> op \<Rightarrow> bcache option" where
  "step s (Get p d n) = after (bget s p d n)"
| "step s (Read p d n) = after (bread s p d n)"
| "step s (Wake p b) = (case acquiresleep s p b of None \<Rightarrow> Some s | Some s' \<Rightarrow> Some s')"
| "step s (Wake_read p b) =
     (case acquiresleep s p b of None \<Rightarrow> Some s | Some s' \<Rightarrow> Some (bread_fill s' b))"
| "step s (Write p b) = no_panic (bwrite s p b)"
| "step s (Release p b) = no_panic (brelse s p b)"
| "step s (Pin b) = Some (bpin s b)"
| "step s (Unpin b) = Some (bunpin s b)"
| "step s Tick = Some (s\<lparr>clock := clock s + 1\<rparr>)"

fun exec :: "bcache \<Rightarrow> op list \<Rightarrow> bcache option" where
  "exec s [] = Some s"
| "exec s (x # xs) = (case step s x of None \<Rightarrow> None | Some s' \<Rightarrow> exec s' xs)"

definition NBUF :: nat where
  "NBUF = BUCKETSIZE * BUFFERSIZE"

text \<open>Slot arguments point into the pool, and \<open>bpin\<close> and \<open>bunpin\<close> are not applied
  to a slot that carries the eviction mark.\<close>

fun allowed :: "bcache \<Rightarrow> op \<Rightarrow> bool" where
  "allowed s (Wake p b) = (b < NBUF)"
| "allowed s (Wake_read p b) = (b < NBUF)"
| "allowed s (Write p b) = (b < NBUF)"
| "allowed s (Release p b) = (b < NBUF)"
| "allowed s (Pin b) = (b < NBUF \<and> refcnt (bufs s b) \<noteq> - 1)"
| "allowed s (Unpin b) = (b < NBUF \<and> refcnt (bufs s b) \<noteq> - 1)"
| "allowed s x = True"

fun disciplined :: "bcache \<Rightarrow> op list \<Rightarrow> bool" where
  "disciplined s [] = True"
| "disciplined s (x # xs) =
     (allowed s x \<and> (case step s x of None \<Rightarrow> True | Some s' \<Rightarrow> disciplined s' xs))"

text \<open>Uniqueness of the identity \<open>(d, n)\<close>: no two slots of the pool whose \<open>refcnt\<close>,
  read as a signed number, is at least 0 both carry it.\<close>

definition unique_id :: "bcache \<Rightarrow> u32 \<Rightarrow> u32 \<Rightarrow> bool" where
  "unique_id s d n =
     (\<forall>a<NBUF. \<forall>b<NBUF.
        a \<noteq> b \<and> dev (bufs s a) = d \<and> blockno (bufs s a) = n
              \<and> dev (bufs s b) = d \<and> blockno (bufs s b) = n
        \<longrightarrow> \<not> (0 \<le> sint (refcnt (bufs s a)) \<and> 0 \<le> sint (refcnt (bufs s b))))"

subsection \<open>Invariants of the cache\<close>

definition pool_inv :: "bcache \<Rightarrow> bool" where
  "pool_inv s =
     (length (buckets s) = BUCKETSIZE
      \<and> (\<forall>b. b < NBUF \<longleftrightarrow> (\<exists>i<BUCKETSIZE. b \<in> set (buckets s ! i)))
      \<and> (\<forall>i<BUCKETSIZE. \<forall>j<BUCKETSIZE. \<forall>b\<in>set (buckets s ! i). b \<in> set (buckets s ! j) \<longrightarrow> i = j))"

definition home_inv :: "bcache \<Rightarrow> bool" where
  "home_inv s =
     (\<forall>i<BUCKETSIZE. \<forall>b\<in>set (buckets s ! i).
        dev (bufs s b) \<noteq> 0 \<or> blockno (bufs s b) \<noteq> 0 \<longrightarrow> hash (blockno (bufs s b)) = i)"

definition mark_inv :: "bcache \<Rightarrow> bool" where
  "mark_inv s =
     (\<forall>a<NBUF. \<forall>b<NBUF.
        a \<noteq> b \<and> dev (bufs s a) = dev (bufs s b) \<and> blockno (bufs s a) = blockno (bufs s b)
              \<and> (dev (bufs s a) \<noteq> 0 \<or> blockno (bufs s a) \<noteq> 0)
        \<longrightarrow> refcnt (bufs s a) = - 1 \<or> refcnt (bufs s b) = - 1)"

definition cache_inv :: "bcache \<Rightarrow> bool" where
  "cache_inv s = (pool_inv s \<and> home_inv s \<and> mark_inv s)"

lemma hash_less: "hash n < BUCKETSIZE"
  by (simp add: hash_def BUCKETSIZE_def)

lemma length_unlink: "length (unlink b bks) = length bks"
  by (simp add: unlink_def)

lemma length_link_head: "length (link_head k b bks) = length bks"
  by (simp add: link_head_def)

lemma length_link_tail: "length (link_tail k b bks) = length bks"
  by (simp add: link_tail_def)

lemma set_unlink: "i < length bks \<Longrightarrow> set (unlink b bks ! i) = set (bks ! i) - {b}"
  by (simp add: unlink_def)

lemma set_link_head:
  "i < length bks \<Longrightarrow> set (link_head k b bks ! i) = (if i = k then insert b (set (bks ! i)) else set (bks ! i))"
  by (simp add: link_head_def nth_list_update)

lemma set_link_tail:
  "i < length bks \<Longrightarrow> set (link_tail k b bks ! i) = (if i = k then insert b (set (bks ! i)) else set (bks ! i))"
  by (simp add: link_tail_def nth_list_update)

lemma find_cached_None:
  "find_cached bs d n xs = None \<Longrightarrow> x \<in> set xs \<Longrightarrow> dev (bs x) = d \<Longrightarrow> blockno (bs x) = n
   \<Longrightarrow> refcnt (bs x) = - 1"
  by (induction xs) (auto split: if_splits)

lemma find_cached_Some:
  "find_cached bs d n xs = Some b \<Longrightarrow>
   b \<in> set xs \<and> dev (bs b) = d \<and> blockno (bs b) = n \<and> refcnt (bs b) \<noteq> - 1"
  by (induction xs) (auto split: if_splits)

lemma find_free_Some: "find_free bs xs = Some b \<Longrightarrow> b \<in> set xs \<and> refcnt (bs b) = 0"
  by (induction xs) (auto split: if_splits)

lemma find_free_None: "find_free bs xs = None \<Longrightarrow> x \<in> set xs \<Longrightarrow> refcnt (bs x) \<noteq> 0"
  by (induction xs) (auto split: if_splits)

lemma scan_fold_member:
  "snd (fold (scan_step bs i) xs acc) = Some (b, j) \<Longrightarrow>
   snd acc = Some (b, j) \<or> (j = i \<and> b \<in> set xs)"
proof (induction xs arbitrary: acc)
  case Nil
  then show ?case by simp
next
  case (Cons a xs)
  from Cons.prems have "snd (fold (scan_step bs i) xs (scan_step bs i a acc)) = Some (b, j)"
    by simp
  from Cons.IH [OF this] show ?case
    by (auto simp: scan_step_def split: if_splits)
qed

lemma scan_buckets_member:
  "snd (fold (\<lambda>i acc. if i = buckno then acc else scan_bucket s i acc) is acc) = Some (b, j)
   \<Longrightarrow> snd acc = Some (b, j) \<or> (j \<in> set is \<and> j \<noteq> buckno \<and> b \<in> set (buckets s ! j))"
proof (induction "is" arbitrary: acc)
  case Nil
  then show ?case by simp
next
  case (Cons i "is")
  show ?case
  proof (cases "i = buckno")
    case True
    with Cons.prems have "snd (fold (\<lambda>i acc. if i = buckno then acc else scan_bucket s i acc) is acc)
        = Some (b, j)"
      by simp
    from Cons.IH [OF this] show ?thesis by auto
  next
    case False
    with Cons.prems have "snd (fold (\<lambda>i acc. if i = buckno then acc else scan_bucket s i acc) is
        (scan_bucket s i acc)) = Some (b, j)"
      by simp
    from Cons.IH [OF this] show ?thesis
      using scan_fold_member [of "bufs s" i "rev (buckets s ! i)" acc b j] False
      by (auto simp: scan_bucket_def)
  qed
qed

lemma victim_scan_member:
  "victim_scan s buckno = Some (b, j) \<Longrightarrow> j < BUCKETSIZE \<and> j \<noteq> buckno \<and> b \<in> set (buckets s ! j)"
  unfolding victim_scan_def
  using scan_buckets_member [of buckno s "[0..<BUCKETSIZE]" "(0xffffffff, None)" b j]
  by simp

lemma steal_loop_Inr:
  "steal_loop s buckno = Inr (s', b) \<Longrightarrow>
   \<exists>j. victim_scan s buckno = Some (b, j) \<and> s' = s\<lparr>bufs := (bufs s)(b := (bufs s b)\<lparr>refcnt := - 1\<rparr>)\<rparr>"
  by (subst (asm) steal_loop.simps)
     (auto simp: select_victim_def victim_claim_def split: option.splits if_splits dest: victim_scan_free)


lemma fold_cons_offset: "fold (\<lambda>j l. (c + j) # l) xs acc = rev (map ((+) c) xs) @ acc"
  by (induction xs arbitrary: acc) auto

lemma binit_bucket:
  "i < BUCKETSIZE \<Longrightarrow> set (buckets (binit s) ! i) = {i * BUFFERSIZE ..< i * BUFFERSIZE + BUFFERSIZE}"
  by (auto simp: binit_def fold_cons_offset)

lemma binit_pool: "pool_inv (binit s)"
proof -
  have len: "length (buckets (binit s)) = BUCKETSIZE"
    by (simp add: binit_def)
  have mem: "b < NBUF \<longleftrightarrow> (\<exists>i<BUCKETSIZE. b \<in> set (buckets (binit s) ! i))" for b
  proof
    assume "b < NBUF"
    then have "b div BUFFERSIZE < BUCKETSIZE"
      by (simp add: NBUF_def BUFFERSIZE_def BUCKETSIZE_def)
    moreover have "b \<in> {b div BUFFERSIZE * BUFFERSIZE ..< b div BUFFERSIZE * BUFFERSIZE + BUFFERSIZE}"
      by (simp add: BUFFERSIZE_def)
    ultimately show "\<exists>i<BUCKETSIZE. b \<in> set (buckets (binit s) ! i)"
      using binit_bucket by blast
  next
    assume "\<exists>i<BUCKETSIZE. b \<in> set (buckets (binit s) ! i)"
    then obtain i where "i < BUCKETSIZE" "b \<in> {i * BUFFERSIZE ..< i * BUFFERSIZE + BUFFERSIZE}"
      using binit_bucket by blast
    then show "b < NBUF"
      by (simp add: NBUF_def BUFFERSIZE_def BUCKETSIZE_def)
  qed
  have dis: "i = j" if "i < BUCKETSIZE" "j < BUCKETSIZE" "b \<in> set (buckets (binit s) ! i)"
    "b \<in> set (buckets (binit s) ! j)" for i j b
  proof -
    from that have "b \<in> {i * BUFFERSIZE ..< i * BUFFERSIZE + BUFFERSIZE}"
      "b \<in> {j * BUFFERSIZE ..< j * BUFFERSIZE + BUFFERSIZE}"
      using binit_bucket by blast+
    then show ?thesis by (simp add: BUFFERSIZE_def)
  qed
  show ?thesis
    unfolding pool_inv_def using len mem dis by blast
qed

lemma binit_inv: "cache_inv (binit (zeroed dsk t))"
proof -
  have "bufs (binit (zeroed dsk t)) b = zero_buf" for b
    by (simp add: binit_def zeroed_def)
  then have "home_inv (binit (zeroed dsk t))" "mark_inv (binit (zeroed dsk t))"
    by (simp_all add: home_inv_def mark_inv_def zero_buf_def)
  then show ?thesis
    by (simp add: cache_inv_def binit_pool)
qed

lemma cache_inv_cong:
  "bufs s' = bufs s \<Longrightarrow> buckets s' = buckets s \<Longrightarrow> cache_inv s' = cache_inv s"
  by (simp add: cache_inv_def pool_inv_def home_inv_def mark_inv_def)

text \<open>Identity and buckets untouched: only the count of one slot changes, and not from \<open>-1\<close>.\<close>

lemma refcnt_change_inv:
  assumes "cache_inv s" and "refcnt (bufs s b) \<noteq> - 1"
    and "buckets s' = buckets s"
    and "\<And>x. x \<noteq> b \<Longrightarrow> bufs s' x = bufs s x"
    and "dev (bufs s' b) = dev (bufs s b)" and "blockno (bufs s' b) = blockno (bufs s b)"
  shows "cache_inv s'"
proof -
  have id: "dev (bufs s' x) = dev (bufs s x) \<and> blockno (bufs s' x) = blockno (bufs s x)" for x
    using assms(4-6) by (cases "x = b") auto
  have pool: "pool_inv s'"
    using assms(1,3) by (simp add: cache_inv_def pool_inv_def)
  have home: "home_inv s'"
    using assms(1,3) id by (simp add: cache_inv_def home_inv_def)
  have mark: "mark_inv s'"
    unfolding mark_inv_def
  proof (intro allI impI)
    fix x y
    assume xy: "x < NBUF" "y < NBUF"
      "x \<noteq> y \<and> dev (bufs s' x) = dev (bufs s' y) \<and> blockno (bufs s' x) = blockno (bufs s' y)
        \<and> (dev (bufs s' x) \<noteq> 0 \<or> blockno (bufs s' x) \<noteq> 0)"
    with id assms(1) have old: "refcnt (bufs s x) = - 1 \<or> refcnt (bufs s y) = - 1"
      unfolding cache_inv_def mark_inv_def by metis
    show "refcnt (bufs s' x) = - 1 \<or> refcnt (bufs s' y) = - 1"
    proof (cases "x = b")
      case True
      with old assms(2) xy assms(4) [of y] show ?thesis by auto
    next
      case False
      note xb = this
      show ?thesis
      proof (cases "y = b")
        case True
        with old assms(2) xy assms(4) [of x] show ?thesis by auto
      next
        case False
        with xb old assms(4) show ?thesis by auto
      qed
    qed
  qed
  from pool home mark show ?thesis by (simp add: cache_inv_def)
qed


lemma pool_bucket_of:
  "pool_inv s \<Longrightarrow> x < NBUF \<Longrightarrow> \<exists>i<BUCKETSIZE. x \<in> set (buckets s ! i)"
  by (simp add: pool_inv_def)

text \<open>A slot of identity \<open>(d, n)\<close>, other than the zero identity, sits in bucket \<open>hash n\<close>;
  when the first loop of \<open>bget\<close> finds nothing there, the slot carries the mark.\<close>

lemma miss_marked:
  assumes inv: "cache_inv s"
    and miss: "find_cached (bufs s) d n (buckets s ! hash n) = None"
    and x: "x < NBUF" "dev (bufs s x) = d" "blockno (bufs s x) = n" "d \<noteq> 0 \<or> n \<noteq> 0"
  shows "refcnt (bufs s x) = - 1"
proof -
  from inv x(1) obtain i where i: "i < BUCKETSIZE" "x \<in> set (buckets s ! i)"
    using pool_bucket_of by (auto simp: cache_inv_def)
  with inv x have "hash n = i"
    by (auto simp: cache_inv_def home_inv_def)
  with i miss x show ?thesis
    using find_cached_None by blast
qed

text \<open>A slot is given the identity \<open>(d, n)\<close> after a miss, in bucket \<open>hash n\<close>.\<close>

lemma assign_inv:
  assumes inv: "cache_inv s"
    and miss: "find_cached (bufs s) d n (buckets s ! hash n) = None"
    and pool: "pool_inv s'"
    and home: "\<forall>i<BUCKETSIZE. b \<in> set (buckets s' ! i) \<longrightarrow> i = hash n"
    and sub: "\<forall>i<BUCKETSIZE. \<forall>x\<in>set (buckets s' ! i). x \<noteq> b \<longrightarrow> x \<in> set (buckets s ! i)"
    and same: "\<And>x. x \<noteq> b \<Longrightarrow> bufs s' x = bufs s x"
    and new: "dev (bufs s' b) = d" "blockno (bufs s' b) = n"
  shows "cache_inv s'"
proof -
  have h: "home_inv s'"
    unfolding home_inv_def
  proof (intro allI impI ballI)
    fix i x
    assume ix: "i < BUCKETSIZE" "x \<in> set (buckets s' ! i)"
      "dev (bufs s' x) \<noteq> 0 \<or> blockno (bufs s' x) \<noteq> 0"
    show "hash (blockno (bufs s' x)) = i"
    proof (cases "x = b")
      case True
      with ix home new show ?thesis by auto
    next
      case False
      with ix sub same inv show ?thesis
        by (auto simp: cache_inv_def home_inv_def)
    qed
  qed
  have m: "mark_inv s'"
    unfolding mark_inv_def
  proof (intro allI impI)
    fix x y
    assume xy: "x < NBUF" "y < NBUF"
      "x \<noteq> y \<and> dev (bufs s' x) = dev (bufs s' y) \<and> blockno (bufs s' x) = blockno (bufs s' y)
        \<and> (dev (bufs s' x) \<noteq> 0 \<or> blockno (bufs s' x) \<noteq> 0)"
    show "refcnt (bufs s' x) = - 1 \<or> refcnt (bufs s' y) = - 1"
    proof (cases "x = b")
      case True
      with xy have yb: "y \<noteq> b" by simp
      with xy True new same have "dev (bufs s y) = d" "blockno (bufs s y) = n" "d \<noteq> 0 \<or> n \<noteq> 0"
        by auto
      from miss_marked [OF inv miss xy(2) this] yb same show ?thesis by simp
    next
      case False
      note xb = this
      show ?thesis
      proof (cases "y = b")
        case True
        with xy xb new same have "dev (bufs s x) = d" "blockno (bufs s x) = n" "d \<noteq> 0 \<or> n \<noteq> 0"
          by auto
        from miss_marked [OF inv miss xy(1) this] xb same show ?thesis by simp
      next
        case False
        with xb xy same inv show ?thesis
          unfolding cache_inv_def mark_inv_def by (metis (no_types, lifting))
      qed
    qed
  qed
  from pool h m show ?thesis by (simp add: cache_inv_def)
qed

text \<open>Moving slot \<open>b\<close> of the pool to bucket \<open>k\<close> keeps the pool partitioned.\<close>

lemma move_pool:
  assumes "pool_inv s" and "b < NBUF" and "k < BUCKETSIZE"
    and "buckets s' = link_head k b (unlink b (buckets s)) \<or>
         buckets s' = link_tail k b (unlink b (buckets s))"
  shows "pool_inv s'"
    and "\<forall>i<BUCKETSIZE. b \<in> set (buckets s' ! i) \<longrightarrow> i = k"
    and "\<forall>i<BUCKETSIZE. \<forall>x\<in>set (buckets s' ! i). x \<noteq> b \<longrightarrow> x \<in> set (buckets s ! i)"
proof -
  from assms(1) have len: "length (buckets s) = BUCKETSIZE"
    by (simp add: pool_inv_def)
  have sets: "set (buckets s' ! i) = (if i = k then insert b (set (buckets s ! i) - {b})
      else set (buckets s ! i) - {b})" if "i < BUCKETSIZE" for i
    using assms(4) that len
    by (auto simp: set_link_head set_link_tail set_unlink length_unlink)
  have other: "x \<in> set (buckets s' ! i) \<longleftrightarrow> x \<in> set (buckets s ! i)"
    if "i < BUCKETSIZE" "x \<noteq> b" for i x
    using sets [OF that(1)] that(2) by (simp split: if_splits)
  have this_one: "b \<in> set (buckets s' ! i) \<longleftrightarrow> i = k" if "i < BUCKETSIZE" for i
    using sets [OF that] by (simp split: if_splits)
  have len': "length (buckets s') = BUCKETSIZE"
    using assms(4) len by (auto simp: length_link_head length_link_tail length_unlink)
  have mem: "x < NBUF \<longleftrightarrow> (\<exists>i<BUCKETSIZE. x \<in> set (buckets s' ! i))" for x
  proof (cases "x = b")
    case True
    with assms(2,3) this_one show ?thesis by auto
  next
    case False
    have "(\<exists>i<BUCKETSIZE. x \<in> set (buckets s' ! i)) \<longleftrightarrow> (\<exists>i<BUCKETSIZE. x \<in> set (buckets s ! i))"
      using False other by auto
    with assms(1) show ?thesis by (simp add: pool_inv_def)
  qed
  have dis: "i = j" if "i < BUCKETSIZE" "j < BUCKETSIZE" "x \<in> set (buckets s' ! i)"
    "x \<in> set (buckets s' ! j)" for i j x
  proof (cases "x = b")
    case True
    with that this_one show ?thesis by auto
  next
    case False
    with that other have "x \<in> set (buckets s ! i)" "x \<in> set (buckets s ! j)"
      by auto
    with assms(1) that show ?thesis
      unfolding pool_inv_def by blast
  qed
  show "pool_inv s'"
    unfolding pool_inv_def using len' mem dis by blast
  show "\<forall>i<BUCKETSIZE. b \<in> set (buckets s' ! i) \<longrightarrow> i = k"
    using this_one by auto
  show "\<forall>i<BUCKETSIZE. \<forall>x\<in>set (buckets s' ! i). x \<noteq> b \<longrightarrow> x \<in> set (buckets s ! i)"
    using other by auto
qed

lemma bget_hit_inv:
  "cache_inv s \<Longrightarrow> find_cached (bufs s) d n (buckets s ! k) = Some b \<Longrightarrow> cache_inv (bget_hit s b)"
proof -
  assume inv: "cache_inv s" and hit: "find_cached (bufs s) d n (buckets s ! k) = Some b"
  from find_cached_Some [OF hit] have "refcnt (bufs s b) \<noteq> - 1"
    by simp
  with inv show ?thesis
    by (rule refcnt_change_inv) (simp_all add: bget_hit_def)
qed

lemma bget_local_inv:
  assumes inv: "cache_inv s"
    and miss: "find_cached (bufs s) d n (buckets s ! hash n) = None"
    and free: "find_free (bufs s) (rev (buckets s ! hash n)) = Some b"
  shows "cache_inv (bget_local s d n b)"
proof (rule assign_inv [OF inv miss, where b = b])
  have bk: "buckets (bget_local s d n b) = buckets s"
    by (simp add: bget_local_def)
  from inv have pool: "pool_inv s"
    by (simp add: cache_inv_def)
  then show "pool_inv (bget_local s d n b)"
    by (simp add: pool_inv_def bk)
  from find_free_Some [OF free] have mem: "b \<in> set (buckets s ! hash n)"
    by simp
  show "\<forall>i<BUCKETSIZE. b \<in> set (buckets (bget_local s d n b) ! i) \<longrightarrow> i = hash n"
  proof (intro allI impI)
    fix i
    assume "i < BUCKETSIZE" "b \<in> set (buckets (bget_local s d n b) ! i)"
    with pool mem hash_less [of n] show "i = hash n"
      unfolding pool_inv_def bk by blast
  qed
  show "\<forall>i<BUCKETSIZE. \<forall>x\<in>set (buckets (bget_local s d n b) ! i).
      x \<noteq> b \<longrightarrow> x \<in> set (buckets s ! i)"
    by (simp add: bk)
qed (simp_all add: bget_local_def)

lemma bget_move_inv:
  assumes inv: "cache_inv s"
    and miss: "find_cached (bufs s) d n (buckets s ! hash n) = None"
    and steal: "steal_loop s (hash n) = Inr (s', b)"
  shows "cache_inv (bget_move s' d n (hash n) b)"
proof -
  from steal_loop_Inr [OF steal] obtain j where
    j: "victim_scan s (hash n) = Some (b, j)"
    and s': "s' = s\<lparr>bufs := (bufs s)(b := (bufs s b)\<lparr>refcnt := - 1\<rparr>)\<rparr>"
    by blast
  from inv have pool: "pool_inv s"
    by (simp add: cache_inv_def)
  from victim_scan_member [OF j] pool have b: "b < NBUF"
    unfolding pool_inv_def by blast
  have bk: "buckets (bget_move s' d n (hash n) b) = link_head (hash n) b (unlink b (buckets s)) \<or>
      buckets (bget_move s' d n (hash n) b) = link_tail (hash n) b (unlink b (buckets s))"
    by (simp add: bget_move_def s')
  note mv = move_pool [OF pool b hash_less bk]
  show ?thesis
    by (rule assign_inv [OF inv miss mv])
       (simp_all add: bget_move_def s')
qed

lemma acquiresleep_inv: "acquiresleep s p b = Some s' \<Longrightarrow> cache_inv s' = cache_inv s"
  by (rule cache_inv_cong) (auto simp: acquiresleep_def split: if_splits)

lemma checkout_slot_inv:
  "cache_inv s \<Longrightarrow> after (checkout_slot s p b) = Some s' \<Longrightarrow> cache_inv s'"
  by (cases "acquiresleep s p b") (auto simp: checkout_slot_def after_def acquiresleep_inv)

lemma bget_inv:
  assumes inv: "cache_inv s" and r: "after (bget s p d n) = Some s'"
  shows "cache_inv s'"
proof (cases "find_cached (bufs s) d n (buckets s ! hash n)")
  case (Some b)
  with r have "after (checkout_slot (bget_hit s b) p b) = Some s'"
    by (simp add: bget_def)
  with bget_hit_inv [OF inv Some] show ?thesis
    by (rule checkout_slot_inv)
next
  case None
  note miss = this
  show ?thesis
  proof (cases "find_free (bufs s) (rev (buckets s ! hash n))")
    case (Some b)
    with miss r have "after (checkout_slot (bget_local s d n b) p b) = Some s'"
      by (simp add: bget_def)
    with bget_local_inv [OF inv miss Some] show ?thesis
      by (rule checkout_slot_inv)
  next
    case None
    show ?thesis
    proof (cases "steal_loop s (hash n)")
      case (Inl msg)
      with miss None r show ?thesis
        by (simp add: bget_def after_def)
    next
      case (Inr sb)
      obtain s1 b where sb: "sb = (s1, b)"
        by (cases sb)
      with miss None Inr r have "after (checkout_slot (bget_move s1 d n (hash n) b) p b) = Some s'"
        by (simp add: bget_def)
      with bget_move_inv [OF inv miss Inr [unfolded sb]] show ?thesis
        by (rule checkout_slot_inv)
    qed
  qed
qed

lemma cache_inv_meta:
  "buckets s' = buckets s \<Longrightarrow>
   (\<And>x. dev (bufs s' x) = dev (bufs s x) \<and> blockno (bufs s' x) = blockno (bufs s x)
        \<and> refcnt (bufs s' x) = refcnt (bufs s x)) \<Longrightarrow>
   cache_inv s' = cache_inv s"
  by (simp add: cache_inv_def pool_inv_def home_inv_def mark_inv_def)

lemma bread_fill_inv: "cache_inv s \<Longrightarrow> cache_inv (bread_fill s b)"
  using cache_inv_meta [of "bread_fill s b" s] by (simp add: bread_fill_def)

lemma brelse_inv:
  assumes inv: "cache_inv s" and b: "b < NBUF" and r: "brelse s p b = Inr s'"
  shows "cache_inv s'"
proof -
  let ?s1 = "releasesleep s b"
  let ?s2 = "?s1\<lparr>bufs := (bufs ?s1)(b := (bufs ?s1 b)\<lparr>refcnt := refcnt (bufs ?s1 b) - 1\<rparr>)\<rparr>"
  let ?k = "hash (blockno (bufs s b))"
  from r have mark: "refcnt (bufs s b) \<noteq> - 1"
    by (auto simp: brelse_def releasesleep_def Let_def split: if_splits)
  have inv2: "cache_inv ?s2"
    by (rule refcnt_change_inv [OF inv mark]) (simp_all add: releasesleep_def)
  show ?thesis
  proof (cases "refcnt (bufs ?s2 b) = 0")
    case False
    with r have "s' = ?s2"
      by (auto simp: brelse_def Let_def split: if_splits)
    with inv2 show ?thesis by simp
  next
    case True
    with r have s': "s' = ?s2\<lparr>buckets := link_head ?k b (unlink b (buckets ?s2))\<rparr>"
      by (auto simp: brelse_def Let_def releasesleep_def split: if_splits)
    from inv2 have pool: "pool_inv ?s2"
      by (simp add: cache_inv_def)
    have bk: "buckets s' = link_head ?k b (unlink b (buckets ?s2)) \<or>
        buckets s' = link_tail ?k b (unlink b (buckets ?s2))"
      by (simp add: s')
    note mv = move_pool [OF pool b hash_less bk]
    have bufs: "bufs s' = bufs ?s2"
      by (simp add: s')
    have home: "home_inv s'"
      unfolding home_inv_def
    proof (intro allI impI ballI)
      fix i x
      assume ix: "i < BUCKETSIZE" "x \<in> set (buckets s' ! i)"
        "dev (bufs s' x) \<noteq> 0 \<or> blockno (bufs s' x) \<noteq> 0"
      show "hash (blockno (bufs s' x)) = i"
      proof (cases "x = b")
        case True
        with ix mv(2) have "i = ?k" by blast
        with True show ?thesis by (simp add: s' releasesleep_def)
      next
        case False
        with ix mv(3) have "x \<in> set (buckets ?s2 ! i)" by blast
        with inv2 ix show ?thesis
          unfolding cache_inv_def home_inv_def bufs by blast
      qed
    qed
    from inv2 have "mark_inv ?s2"
      by (simp add: cache_inv_def)
    then have "mark_inv s'"
      unfolding mark_inv_def bufs .
    with mv(1) home show ?thesis
      by (simp add: cache_inv_def)
  qed
qed

lemma bpin_inv: "cache_inv s \<Longrightarrow> refcnt (bufs s b) \<noteq> - 1 \<Longrightarrow> cache_inv (bpin s b)"
  by (rule refcnt_change_inv [where b = b and s = s]) (simp_all add: bpin_def)

lemma bunpin_inv: "cache_inv s \<Longrightarrow> refcnt (bufs s b) \<noteq> - 1 \<Longrightarrow> cache_inv (bunpin s b)"
  by (rule refcnt_change_inv [where b = b and s = s]) (simp_all add: bunpin_def)

lemma bread_inv:
  assumes inv: "cache_inv s" and r: "after (bread s p d n) = Some s'"
  shows "cache_inv s'"
proof (cases "bget s p d n")
  case (Panic msg)
  with r show ?thesis by (simp add: bread_def after_def)
next
  case (Sleeping s1 b)
  with r have "after (bget s p d n) = Some s'"
    by (simp add: bread_def after_def)
  with inv show ?thesis by (rule bget_inv)
next
  case (Locked s1 b)
  then have "after (bget s p d n) = Some s1"
    by (simp add: after_def)
  with inv have "cache_inv s1" by (rule bget_inv)
  moreover from Locked r have "s' = bread_fill s1 b"
    by (simp add: bread_def after_def)
  ultimately show ?thesis by (simp add: bread_fill_inv)
qed

lemma step_inv:
  assumes inv: "cache_inv s" and ok: "allowed s x" and st: "step s x = Some s'"
  shows "cache_inv s'"
proof (cases x)
  case (Get p d n)
  with st have "after (bget s p d n) = Some s'" by simp
  with inv show ?thesis by (rule bget_inv)
next
  case (Read p d n)
  with st have "after (bread s p d n) = Some s'" by simp
  with inv show ?thesis by (rule bread_inv)
next
  case (Wake p b)
  show ?thesis
  proof (cases "acquiresleep s p b")
    case None
    with Wake inv st show ?thesis by simp
  next
    case (Some s1)
    with Wake st have "s' = s1" by simp
    with acquiresleep_inv [OF Some] inv show ?thesis by simp
  qed
next
  case (Wake_read p b)
  show ?thesis
  proof (cases "acquiresleep s p b")
    case None
    with Wake_read inv st show ?thesis by simp
  next
    case (Some s1)
    with Wake_read st have "s' = bread_fill s1 b" by simp
    with acquiresleep_inv [OF Some] inv show ?thesis by (simp add: bread_fill_inv)
  qed
next
  case (Write p b)
  with st have "bufs s' = bufs s" "buckets s' = buckets s"
    by (auto simp: bwrite_def no_panic_def split: if_splits)
  with inv show ?thesis using cache_inv_cong [of s' s] by simp
next
  case (Release p b)
  with st ok have "b < NBUF" "brelse s p b = Inr s'"
    by (auto simp: no_panic_def split: sum.splits)
  with inv show ?thesis by (rule brelse_inv)
next
  case (Pin b)
  with ok st have "refcnt (bufs s b) \<noteq> - 1" "s' = bpin s b" by auto
  with inv show ?thesis by (simp add: bpin_inv)
next
  case (Unpin b)
  with ok st have "refcnt (bufs s b) \<noteq> - 1" "s' = bunpin s b" by auto
  with inv show ?thesis by (simp add: bunpin_inv)
next
  case Tick
  with st have "bufs s' = bufs s" "buckets s' = buckets s"
    by auto
  with inv show ?thesis using cache_inv_cong [of s' s] by simp
qed

lemma exec_inv:
  "cache_inv s \<Longrightarrow> disciplined s xs \<Longrightarrow> exec s xs = Some s' \<Longrightarrow> cache_inv s'"
proof (induction xs arbitrary: s)
  case Nil
  then show ?case by simp
next
  case (Cons x xs)
  from Cons.prems(3) obtain s1 where s1: "step s x = Some s1" "exec s1 xs = Some s'"
    by (auto split: option.splits)
  with Cons.prems have ok: "allowed s x" and d1: "disciplined s1 xs"
    by auto
  from step_inv [OF Cons.prems(1) ok s1(1)] d1 have "cache_inv s1" "disciplined s1 xs"
    by auto
  with Cons.IH s1 show ?case by blast
qed

lemma cache_inv_unique:
  assumes "cache_inv s" and "d \<noteq> 0 \<or> n \<noteq> 0"
  shows "unique_id s d n"
  unfolding unique_id_def
proof (intro allI impI)
  fix a b
  assume ab: "a < NBUF" "b < NBUF"
    "a \<noteq> b \<and> dev (bufs s a) = d \<and> blockno (bufs s a) = n
      \<and> dev (bufs s b) = d \<and> blockno (bufs s b) = n"
  with assms have "refcnt (bufs s a) = - 1 \<or> refcnt (bufs s b) = - 1"
    unfolding cache_inv_def mark_inv_def by auto
  then show "\<not> (0 \<le> sint (refcnt (bufs s a)) \<and> 0 \<le> sint (refcnt (bufs s b)))"
    by auto
qed

lemma bget_returns_unmarked:
  assumes "returned (bget s p d n) = Some b"
  shows "refcnt (bufs s b) \<noteq> - 1"
proof (cases "find_cached (bufs s) d n (buckets s ! hash n)")
  case (Some c)
  with assms have "c = b"
    by (auto simp: bget_def Let_def returned_def checkout_slot_def split: option.splits)
  with find_cached_Some [OF Some] show ?thesis by simp
next
  case None
  note miss = this
  show ?thesis
  proof (cases "find_free (bufs s) (rev (buckets s ! hash n))")
    case (Some c)
    with miss assms have "c = b"
      by (auto simp: bget_def Let_def returned_def checkout_slot_def split: option.splits)
    with find_free_Some [OF Some] show ?thesis by simp
  next
    case None
    show ?thesis
    proof (cases "steal_loop s (hash n)")
      case (Inl msg)
      with miss None assms show ?thesis
        by (simp add: bget_def returned_def)
    next
      case (Inr sb)
      obtain s1 c where sb: "sb = (s1, c)"
        by (cases sb)
      with miss None Inr assms have "c = b"
        by (auto simp: bget_def Let_def returned_def checkout_slot_def split: option.splits)
      with steal_loop_Inr [OF Inr [unfolded sb]] victim_scan_free show ?thesis
        by fastforce
    qed
  qed
qed

lemma not_unique_idI:
  assumes "a < NBUF" "b < NBUF" "a \<noteq> b"
    and "dev (bufs s a) = d" "blockno (bufs s a) = n" "dev (bufs s b) = d" "blockno (bufs s b) = n"
    and "0 \<le> sint (refcnt (bufs s a))" "0 \<le> sint (refcnt (bufs s b))"
  shows "\<not> unique_id s d n"
  using assms unfolding unique_id_def by blast

subsection \<open>What the scan of \<open>select_victim\<close> finds\<close>

text \<open>The accumulator of the scan: without a candidate \<open>least\<close> is still
  \<open>0xffffffff\<close>; with one, \<open>least\<close> is its tick, which is below \<open>0xffffffff\<close>.\<close>

definition scan_ok :: "(nat \<Rightarrow> buf) \<Rightarrow> u32 \<times> (nat \<times> nat) option \<Rightarrow> bool" where
  "scan_ok bs acc =
     (case snd acc of
        None \<Rightarrow> fst acc = 0xffffffff
      | Some (b, j) \<Rightarrow> ticks (bs b) = fst acc \<and> fst acc < 0xffffffff)"

lemma scan_step_ok: "scan_ok bs acc \<Longrightarrow> scan_ok bs (scan_step bs i b acc)"
  by (auto simp: scan_ok_def scan_step_def split: option.splits intro: order.strict_trans2)

lemma scan_step_le: "fst (scan_step bs i b acc) \<le> fst acc"
  by (auto simp: scan_step_def)

lemma scan_step_least: "refcnt (bs b) = 0 \<Longrightarrow> fst (scan_step bs i b acc) \<le> ticks (bs b)"
  by (auto simp: scan_step_def)

lemma scan_fold_least:
  "scan_ok bs acc \<Longrightarrow>
   scan_ok bs (fold (scan_step bs i) xs acc)
   \<and> fst (fold (scan_step bs i) xs acc) \<le> fst acc
   \<and> (\<forall>c\<in>set xs. refcnt (bs c) = 0 \<longrightarrow> fst (fold (scan_step bs i) xs acc) \<le> ticks (bs c))"
proof (induction xs arbitrary: acc)
  case Nil
  then show ?case by simp
next
  case (Cons a xs)
  let ?acc = "scan_step bs i a acc"
  from Cons.prems have ok: "scan_ok bs ?acc"
    by (rule scan_step_ok)
  note ih = Cons.IH [OF ok]
  have "fst (fold (scan_step bs i) xs ?acc) \<le> fst acc"
    using ih scan_step_le [of bs i a acc] by (meson order_trans)
  moreover have "refcnt (bs a) = 0 \<longrightarrow> fst (fold (scan_step bs i) xs ?acc) \<le> ticks (bs a)"
    using ih scan_step_least [of bs a i acc] by (meson order_trans)
  ultimately show ?case
    using ih by simp
qed

lemma scan_buckets_least:
  "scan_ok (bufs s) acc \<Longrightarrow>
   scan_ok (bufs s) (fold (\<lambda>i acc. if i = k then acc else scan_bucket s i acc) is acc)
   \<and> fst (fold (\<lambda>i acc. if i = k then acc else scan_bucket s i acc) is acc) \<le> fst acc
   \<and> (\<forall>i\<in>set is. i \<noteq> k \<longrightarrow> (\<forall>c\<in>set (buckets s ! i). refcnt (bufs s c) = 0 \<longrightarrow>
         fst (fold (\<lambda>i acc. if i = k then acc else scan_bucket s i acc) is acc) \<le> ticks (bufs s c)))"
proof (induction "is" arbitrary: acc)
  case Nil
  then show ?case by simp
next
  case (Cons i "is")
  let ?f = "\<lambda>i acc. if i = k then acc else scan_bucket s i acc"
  show ?case
  proof (cases "i = k")
    case True
    with Cons.IH [OF Cons.prems] show ?thesis by simp
  next
    case False
    let ?acc = "scan_bucket s i acc"
    note one = scan_fold_least [OF Cons.prems, of i "rev (buckets s ! i)", folded scan_bucket_def]
    then have ok: "scan_ok (bufs s) ?acc" by simp
    note ih = Cons.IH [OF ok]
    have le: "fst (fold ?f is ?acc) \<le> fst ?acc"
      using ih by simp
    have "fst (fold ?f is ?acc) \<le> fst acc"
      using le one by (meson order_trans)
    moreover have "\<forall>c\<in>set (buckets s ! i). refcnt (bufs s c) = 0 \<longrightarrow>
        fst (fold ?f is ?acc) \<le> ticks (bufs s c)"
      using le one by (auto intro: order_trans)
    ultimately show ?thesis
      using ih False by simp
  qed
qed

lemma victim_scan_least:
  assumes "victim_scan s k = Some (b, j)" and "i < BUCKETSIZE" "i \<noteq> k"
    and "c \<in> set (buckets s ! i)" "refcnt (bufs s c) = 0"
  shows "ticks (bufs s b) \<le> ticks (bufs s c)" and "ticks (bufs s b) < 0xffffffff"
proof -
  let ?r = "fold (\<lambda>i acc. if i = k then acc else scan_bucket s i acc) [0..<BUCKETSIZE] (0xffffffff, None)"
  have "scan_ok (bufs s) (0xffffffff, None)"
    by (simp add: scan_ok_def)
  note r = scan_buckets_least [OF this, of k "[0..<BUCKETSIZE]"]
  from assms(1) have "snd ?r = Some (b, j)"
    by (simp add: victim_scan_def)
  with r have t: "ticks (bufs s b) = fst ?r" "fst ?r < 0xffffffff"
    by (auto simp: scan_ok_def)
  from r assms(2-5) have "fst ?r \<le> ticks (bufs s c)"
    by auto
  with t show "ticks (bufs s b) \<le> ticks (bufs s c)" "ticks (bufs s b) < 0xffffffff"
    by simp_all
qed

lemma victim_scan_None:
  assumes "victim_scan s k = None" and "i < BUCKETSIZE" "i \<noteq> k"
    and "c \<in> set (buckets s ! i)" "refcnt (bufs s c) = 0"
  shows "ticks (bufs s c) = 0xffffffff"
proof -
  let ?r = "fold (\<lambda>i acc. if i = k then acc else scan_bucket s i acc) [0..<BUCKETSIZE] (0xffffffff, None)"
  have "scan_ok (bufs s) (0xffffffff, None)"
    by (simp add: scan_ok_def)
  note r = scan_buckets_least [OF this, of k "[0..<BUCKETSIZE]"]
  from assms(1) have "snd ?r = None"
    by (simp add: victim_scan_def)
  with r have "fst ?r = 0xffffffff"
    by (auto simp: scan_ok_def)
  moreover from r assms(2-5) have "fst ?r \<le> ticks (bufs s c)"
    by auto
  ultimately have "(0xffffffff :: u32) \<le> ticks (bufs s c)" by simp
  moreover have "(0xffffffff :: u32) = - 1"
    by simp
  then have "ticks (bufs s c) \<le> (0xffffffff :: u32)"
    by (simp only: word_order.extremum)
  ultimately show ?thesis by simp
qed

subsection \<open>Uniqueness of cached identities\<close>

text \<open>The cache right after \<open>binit\<close>, with an all-zero disk and the clock at 0.\<close>

definition boot :: bcache where
  "boot = binit (zeroed (\<lambda>_ _ _. 0) 0)"

text \<open>
  Calls that do not overlap. From the state \<open>binit\<close> leaves, after any run of whole
  operations that does not panic and in which \<open>bpin\<close> and \<open>bunpin\<close> are never applied to
  a slot marked \<open>-1\<close>, no identity \<open>(d, n)\<close> other than the zero identity \<open>(0, 0)\<close> of
  the never assigned slots is carried by two slots whose \<open>refcnt\<close> is at least 0.
  And whatever the state, \<open>bget\<close> never hands out a slot whose \<open>refcnt\<close> was \<open>-1\<close>
  when it was called: the lookup passes over it, and the two recycling paths only
  take slots whose \<open>refcnt\<close> is 0.
\<close>

lemma sequential_unique_identity:
  "(exec (binit (zeroed dsk t)) xs = Some s \<and> disciplined (binit (zeroed dsk t)) xs
      \<and> (d \<noteq> 0 \<or> n \<noteq> 0) \<longrightarrow> unique_id s d n)
   \<and> (returned (bget s0 p d0 n0) = Some b \<longrightarrow> refcnt (bufs s0 b) \<noteq> - 1)"
  using exec_inv [OF binit_inv, of dsk t xs s] cache_inv_unique [of s d n]
    bget_returns_unmarked [of s0 p d0 n0 b]
  by blast

lemma sequential_unique_identity_example:
  "exec boot [Get 1 1 5, Release 1 25, Get 2 1 18, Pin 26, Tick, Read 1 1 5, Wake 2 25] \<noteq> None
   \<and> disciplined boot [Get 1 1 5, Release 1 25, Get 2 1 18, Pin 26, Tick, Read 1 1 5, Wake 2 25]
   \<and> unique_id (the (exec boot [Get 1 1 5, Release 1 25, Get 2 1 18, Pin 26, Tick, Read 1 1 5, Wake 2 25])) 1 5
   \<and> returned (bget boot 1 1 5) = Some 25
   \<and> refcnt (bufs boot 25) \<noteq> - 1"
proof -
  let ?xs = "[Get 1 1 5, Release 1 25, Get 2 1 18, Pin 26, Tick, Read 1 1 5, Wake 2 25]"
  have run: "exec boot ?xs \<noteq> None"
    by code_simp
  have dis: "disciplined boot ?xs"
    by code_simp
  have ret: "returned (bget boot 1 1 5) = Some 25"
    by code_simp
  from run have "exec (binit (zeroed (\<lambda>_ _ _. 0) 0)) ?xs = Some (the (exec boot ?xs))"
    by (simp add: boot_def)
  with dis ret show ?thesis
    using sequential_unique_identity [of "\<lambda>_ _ _. 0" 0 ?xs "the (exec boot ?xs)" 1 5 boot 1 1 5 25] run
    by (simp add: boot_def)
qed

text \<open>
  The two conditions are needed. Right after \<open>binit\<close> every slot carries the identity
  \<open>(0, 0)\<close> with \<open>refcnt = 0\<close>. And a slot released, decremented once more by
  \<open>bunpin\<close> (which leaves \<open>-1\<close>), looked up again (a second slot gets the identity) and
  then incremented by \<open>bpin\<close> shares its identity \<open>(1, 5)\<close> with the second slot, both
  with \<open>refcnt \<ge> 0\<close>.
\<close>

lemma shared_identity_examples:
  "exec boot [] = Some boot \<and> \<not> unique_id boot 0 0
   \<and> exec boot [Get 1 1 5, Release 1 25, Unpin 25, Get 1 1 5, Pin 25] \<noteq> None
   \<and> \<not> unique_id (the (exec boot [Get 1 1 5, Release 1 25, Unpin 25, Get 1 1 5, Pin 25])) 1 5"
proof -
  let ?xs = "[Get 1 1 5, Release 1 25, Unpin 25, Get 1 1 5, Pin 25]"
  have size: "(0::nat) < NBUF" "1 < NBUF" "Suc 0 < NBUF" "25 < NBUF" "26 < NBUF"
    by (simp_all add: NBUF_def BUCKETSIZE_def BUFFERSIZE_def)
  have zero: "bufs boot b = zero_buf" for b
    by (simp add: boot_def binit_def zeroed_def)
  have "\<not> unique_id boot 0 0"
    by (rule not_unique_idI [of 0 1]) (simp_all add: size zero zero_buf_def)
  moreover have run: "exec boot ?xs \<noteq> None"
    by code_simp
  moreover have
    "map (\<lambda>b. (dev (bufs (the (exec boot ?xs)) b), blockno (bufs (the (exec boot ?xs)) b),
                refcnt (bufs (the (exec boot ?xs)) b))) [25, 26] = [(1, 5, 0), (1, 5, 1)]"
    by code_simp
  then have "\<not> unique_id (the (exec boot ?xs)) 1 5"
    by (intro not_unique_idI [of 25 26]) (simp_all add: size)
  ultimately show ?thesis by simp
qed

subsection \<open>\<open>select_victim\<close>\<close>

lemma select_victim_spec:
  "(victim_scan s k = None \<longrightarrow> select_victim s k = Inl ''bget: no buffers'')
   \<and> (victim_scan s k = Some (b, j) \<longrightarrow>
        j < BUCKETSIZE \<and> j \<noteq> k \<and> b \<in> set (buckets s ! j) \<and> refcnt (bufs s b) = 0
        \<and> (\<forall>i<BUCKETSIZE. i \<noteq> k \<longrightarrow> (\<forall>c\<in>set (buckets s ! i). refcnt (bufs s c) = 0 \<longrightarrow>
              ticks (bufs s b) \<le> ticks (bufs s c)))
        \<and> select_victim s k = Inr (s\<lparr>bufs := (bufs s)(b := (bufs s b)\<lparr>refcnt := - 1\<rparr>)\<rparr>, Some b))
   \<and> (refcnt (bufs s' b) \<noteq> 0 \<longrightarrow> victim_claim s' (Some (b, j)) = Inr (s', None))
   \<and> (refcnt (bufs s' b) = 0 \<longrightarrow>
        victim_claim s' (Some (b, j)) = Inr (s'\<lparr>bufs := (bufs s')(b := (bufs s' b)\<lparr>refcnt := - 1\<rparr>)\<rparr>, Some b))"
  using victim_scan_member [of s k b j] victim_scan_free [of s k b j] victim_scan_least(1) [of s k b j]
  by (auto simp: select_victim_def victim_claim_def)

text \<open>
  A state the cache reaches with the clock at \<open>0xffffffff\<close>: block \<open>(1, 1)\<close> is read,
  released, read again (a hit, which stamps the slot with the clock) and released;
  then every other slot of the pool is checked out.
\<close>

definition late :: bcache where
  "late = binit (zeroed (\<lambda>_ _ _. 0) 0xffffffff)"

definition crowd :: "op list" where
  "crowd = [Get 1 1 1, Release 1 5, Get 1 1 1, Release 1 5]
            @ map (\<lambda>n. Get 1 1 (of_nat n)) (filter (\<lambda>n. n \<noteq> 1) [0..<65])"

text \<open>
  C4 at that state. Slot 5 sits in bucket 1 with \<open>refcnt = 0\<close>, so a scan for bucket 0
  meets a free slot; its tick is \<open>0xffffffff\<close>, the test \<open>b->ticks < least\<close> fails
  against the initial \<open>least = 0xffffffff\<close>, no candidate is recorded, and
  \<open>select_victim\<close> (and with it \<open>bget\<close>) panics with ``no buffers''.
\<close>

theorem C4_free_slot_with_last_tick_panics:
  "(case exec late crowd of
      None \<Rightarrow> False
    | Some s \<Rightarrow>
        buckets s ! 1 = [5, 9, 8, 7, 6]
        \<and> refcnt (bufs s 5) = 0 \<and> ticks (bufs s 5) = 0xffffffff
        \<and> victim_scan s 0 = None
        \<and> (case select_victim s 0 of Inl msg \<Rightarrow> msg = ''bget: no buffers'' | Inr r \<Rightarrow> False)
        \<and> (case bget s 1 1 65 of Panic msg \<Rightarrow> msg = ''bget: no buffers'' | _ \<Rightarrow> False))"
  by code_simp

subsection \<open>Decrements of \<open>refcnt\<close>\<close>

text \<open>
  C5, as the code has it. \<open>brelse\<close> panics when the caller does not hold the checkout
  lock and when \<open>refcnt\<close> is \<open>-1\<close>; in every other case it returns, with \<open>refcnt\<close> one
  less modulo \<open>2^32\<close>. \<open>bunpin\<close> has no check at all.
\<close>

theorem C5_refcnt_checks:
  "(holdingsleep s p b \<and> refcnt (bufs s b) = - 1 \<longrightarrow> brelse s p b = Inl ''brelse: refcnt == -1'')
   \<and> (holdingsleep s p b \<and> refcnt (bufs s b) \<noteq> - 1 \<longrightarrow>
        (\<exists>s'. brelse s p b = Inr s' \<and> refcnt (bufs s' b) = refcnt (bufs s b) - 1))
   \<and> (\<not> holdingsleep s p b \<longrightarrow> brelse s p b = Inl ''brelse'')
   \<and> refcnt (bufs (bunpin s b) b) = refcnt (bufs s b) - 1"
  by (simp add: brelse_def bunpin_def releasesleep_def Let_def)

definition held5 :: bcache where
  "held5 = the (exec boot [Get 1 1 5])"

definition marked5 :: bcache where
  "marked5 = the (exec boot [Get 1 1 5, Unpin 25, Unpin 25])"

theorem C5_refcnt_checks_witness:
  "(holdingsleep marked5 1 25 \<and> refcnt (bufs marked5 25) = - 1)
   \<and> brelse marked5 1 25 = Inl ''brelse: refcnt == -1''
   \<and> (holdingsleep held5 1 25 \<and> refcnt (bufs held5 25) \<noteq> - 1)
   \<and> (\<exists>s'. brelse held5 1 25 = Inr s' \<and> refcnt (bufs s' 25) = refcnt (bufs held5 25) - 1)
   \<and> \<not> holdingsleep boot 1 25
   \<and> brelse boot 1 25 = Inl ''brelse''"
proof -
  have a: "holdingsleep marked5 1 25 \<and> refcnt (bufs marked5 25) = - 1"
    by code_simp
  have b: "holdingsleep held5 1 25 \<and> refcnt (bufs held5 25) \<noteq> - 1"
    by code_simp
  have c: "\<not> holdingsleep boot 1 25"
    by code_simp
  note t1 = C5_refcnt_checks [of marked5 1 25, THEN conjunct1, rule_format, OF a]
  note t2 = C5_refcnt_checks [of held5 1 25, THEN conjunct2, THEN conjunct1, rule_format, OF b]
  note t3 = C5_refcnt_checks [of boot 1 25, THEN conjunct2, THEN conjunct2, THEN conjunct1,
      rule_format, OF c]
  show ?thesis
    by (rule conjI [OF a conjI [OF t1 conjI [OF b conjI [OF t2 conjI [OF c t3]]]]])
qed

text \<open>
  C5 as stated fails. After \<open>bget\<close> and one \<open>bunpin\<close> the caller still holds the lock
  of slot 25 and \<open>refcnt\<close> is 0: \<open>brelse\<close> returns and leaves \<open>refcnt = -1\<close>. \<open>bunpin\<close> on
  a free slot leaves \<open>-1\<close>, and on that leaves \<open>-2\<close>.
\<close>

theorem C5_counterexample:
  "(case exec boot [Get 1 1 5, Unpin 25] of
      None \<Rightarrow> False
    | Some s \<Rightarrow>
        holdingsleep s 1 25 \<and> refcnt (bufs s 25) = 0
        \<and> (case brelse s 1 25 of Inl msg \<Rightarrow> False | Inr s' \<Rightarrow> refcnt (bufs s' 25) = - 1))
   \<and> refcnt (bufs boot 25) = 0
   \<and> refcnt (bufs (bunpin boot 25) 25) = - 1
   \<and> refcnt (bufs (bunpin (bunpin boot 25) 25) 25) = - 2"
  by code_simp

subsection \<open>The three ways \<open>bget\<close> hands out a slot\<close>



text \<open>Two states for the hit and the steal: block \<open>(1, 5)\<close> read and released, and
  bucket 0 with its five slots checked out.\<close>

definition full0 :: bcache where
  "full0 = the (exec boot [Get 1 1 0, Get 1 1 13, Get 1 1 26, Get 1 1 39, Get 1 1 52, Tick])"




subsection \<open>Overlapping calls of \<open>bget\<close>\<close>

text \<open>
  When the lookup misses and the bucket has no free slot, \<open>bget\<close> releases the lock of
  the bucket (\<open>release(&bcache[buckno].lock)\<close>) before it looks for a victim, and when
  it has one it assigns the identity without looking the block up again. For another
  process such a call is two steps. The first, under the lock of the bucket, is the
  lookup and the scan for a free slot; both fail and nothing is written. The second
  is the rest of the function: \<open>select_victim\<close> until it gives a slot, the move of the
  slot to the bucket and the assignment.
\<close>

definition bget_miss :: "bcache \<Rightarrow> u32 \<Rightarrow> u32 \<Rightarrow> bool" where
  "bget_miss s d n =
     (find_cached (bufs s) d n (buckets s ! hash n) = None
      \<and> find_free (bufs s) (rev (buckets s ! hash n)) = None)"

definition bget_steal :: "bcache \<Rightarrow> nat \<Rightarrow> u32 \<Rightarrow> u32 \<Rightarrow> checkout" where
  "bget_steal s p d n =
     (case steal_loop s (hash n) of
        Inl msg \<Rightarrow> Panic msg
      | Inr (s', b) \<Rightarrow> checkout_slot (bget_move s' d n (hash n) b) p b)"

text \<open>A call that nothing interrupts is the second step right after the first.\<close>

lemma bget_miss_steal: "bget_miss s d n \<Longrightarrow> bget s p d n = bget_steal s p d n"
  by (simp add: bget_def bget_miss_def bget_steal_def Let_def)

text \<open>
  C1 fails in the code. In \<open>full0\<close> the five slots of bucket 0 are checked out for the
  blocks 0, 13, 26, 39 and 52 of device 1. Processes 1 and 2 both call
  \<open>bget(1, 65)\<close>, and both do the first step in \<open>full0\<close>, before either has taken a
  slot: the block is not cached and bucket 0 has no free slot. Process 1 then does
  its second step: it takes slot 5 from bucket 1 and makes it block \<open>(1, 65)\<close>, so
  that a lookup would now find the block. Process 2 does not look up again: its
  second step takes slot 6 and makes it block \<open>(1, 65)\<close> too. Both calls return with
  the slot locked, and slots 5 and 6, both on the list of bucket 0, carry the
  identity \<open>(1, 65)\<close> with \<open>refcnt = 1\<close>.
\<close>

theorem C1_overlapping_bget_duplicates:
  "bget_miss full0 1 65
   \<and> (case bget_steal full0 1 1 65 of
         Locked s1 b1 \<Rightarrow>
           b1 = 5
           \<and> find_cached (bufs s1) 1 65 (buckets s1 ! hash 65) = Some 5
           \<and> (case bget_steal s1 2 1 65 of
                 Locked s2 b2 \<Rightarrow>
                   b2 = 6
                   \<and> buckets s2 ! hash 65 = [4, 3, 2, 1, 0, 5, 6]
                   \<and> map (\<lambda>b. (dev (bufs s2 b), blockno (bufs s2 b), refcnt (bufs s2 b))) [5, 6]
                       = [(1, 65, 1), (1, 65, 1)]
               | _ \<Rightarrow> False)
       | _ \<Rightarrow> False)"
  by code_simp

subsection \<open>Reading and releasing blocks in turn\<close>

text \<open>Process \<open>p\<close> reads each block of the list and releases it at once. The result
  is the final state and the slots the reads returned; there is none when a call
  panics or has to sleep.\<close>

fun read_release :: "bcache \<Rightarrow> nat \<Rightarrow> (u32 \<times> u32) list \<Rightarrow> (bcache \<times> nat list) option" where
  "read_release s p [] = Some (s, [])"
| "read_release s p ((d, n) # xs) =
     (case bread s p d n of
        Locked s1 b \<Rightarrow>
          (case brelse s1 p b of
             Inr s2 \<Rightarrow> map_option (\<lambda>(s3, bs). (s3, b # bs)) (read_release s2 p xs)
           | Inl msg \<Rightarrow> None)
      | _ \<Rightarrow> None)"

text \<open>
  C7, as the code has it. The blocks \<open>(1, 0), \<dots>, (1, 5)\<close> hash to the six buckets
  \<open>0, \<dots>, 5\<close>. Read and released in turn from the initial state, none of the calls
  panics; the sixth read misses, finds the free slot 25 in its own bucket and takes
  it, so \<open>select_victim\<close> is not called; afterwards each of the six blocks is still
  found by the lookup of \<open>bget\<close>. Six blocks that do share a bucket, \<open>(1, 13 k)\<close> for
  \<open>k = 0, \<dots>, 5\<close>, do not reach \<open>select_victim\<close> either: before the sixth read the
  five slots of bucket 0 are free again, the read takes slot 0 (the one released
  first, which held block 0), and after it block 0 is no longer found.
\<close>

theorem C7_six_blocks_six_shards:
  "map hash [0, 1, 2, 3, 4, 5] = [0, 1, 2, 3, 4, 5]
   \<and> (case read_release boot 1 [(1, 0), (1, 1), (1, 2), (1, 3), (1, 4)] of
        None \<Rightarrow> False
      | Some (s, bs) \<Rightarrow>
          bs = [0, 5, 10, 15, 20]
          \<and> find_cached (bufs s) 1 5 (buckets s ! hash 5) = None
          \<and> find_free (bufs s) (rev (buckets s ! hash 5)) = Some 25)
   \<and> (case read_release boot 1 [(1, 0), (1, 1), (1, 2), (1, 3), (1, 4), (1, 5)] of
        None \<Rightarrow> False
      | Some (s, bs) \<Rightarrow>
          bs = [0, 5, 10, 15, 20, 25]
          \<and> map (\<lambda>n. find_cached (bufs s) 1 n (buckets s ! hash n)) [0, 1, 2, 3, 4, 5]
              = [Some 0, Some 5, Some 10, Some 15, Some 20, Some 25])
   \<and> map hash [0, 13, 26, 39, 52, 65] = [0, 0, 0, 0, 0, 0]
   \<and> (case read_release boot 1 [(1, 0), (1, 13), (1, 26), (1, 39), (1, 52)] of
        None \<Rightarrow> False
      | Some (s, bs) \<Rightarrow>
          bs = [0, 1, 2, 3, 4]
          \<and> find_cached (bufs s) 1 65 (buckets s ! hash 65) = None
          \<and> find_free (bufs s) (rev (buckets s ! hash 65)) = Some 0
          \<and> find_cached (bufs s) 1 0 (buckets s ! hash 0) = Some 0)
   \<and> (case read_release boot 1 [(1, 0), (1, 13), (1, 26), (1, 39), (1, 52), (1, 65)] of
        None \<Rightarrow> False
      | Some (s, bs) \<Rightarrow>
          bs = [0, 1, 2, 3, 4, 0]
          \<and> find_cached (bufs s) 1 0 (buckets s ! hash 0) = None)"
  by code_simp

text \<open>C7 as stated fails: blocks 0 and 5 hash to different buckets, and before the
  sixth read its bucket has a free slot, so the read stays in the bucket.\<close>

theorem C7_counterexample:
  "hash 0 \<noteq> hash 5
   \<and> (case read_release boot 1 [(1, 0), (1, 1), (1, 2), (1, 3), (1, 4)] of
        None \<Rightarrow> False
      | Some (s, bs) \<Rightarrow> find_free (bufs s) (rev (buckets s ! hash 5)) \<noteq> None)"
  by code_simp

text \<open>
  The last read of a list of blocks, all others read and released before it: the
  slot it returns, the identity that slot had before the call, and whether the slot
  was found free in the bucket of the block (the second loop of \<open>bget\<close>).
\<close>

definition last_reuse :: "(u32 \<times> u32) list \<Rightarrow> (nat \<times> u32 \<times> u32 \<times> bool) option" where
  "last_reuse blocks =
     (case read_release boot 1 (butlast blocks) of
        None \<Rightarrow> None
      | Some (s, bs) \<Rightarrow>
          (case bread s 1 (fst (last blocks)) (snd (last blocks)) of
             Locked s' b \<Rightarrow>
               Some (b, dev (bufs s b), blockno (bufs s b),
                     find_cached (bufs s) (fst (last blocks)) (snd (last blocks))
                       (buckets s ! hash (snd (last blocks))) = None
                     \<and> find_free (bufs s) (rev (buckets s ! hash (snd (last blocks)))) = Some b)
           | _ \<Rightarrow> None))"

text \<open>The statement of C8 for a list of blocks: the last read reuses the slot that
  held the first block.\<close>

definition reuses_first :: "(u32 \<times> u32) list \<Rightarrow> bool" where
  "reuses_first blocks =
     (case last_reuse blocks of
        None \<Rightarrow> False
      | Some (b, d, n, loc) \<Rightarrow> (d, n) = hd blocks)"

subsection \<open>A cache that is only read and released\<close>

definition ident :: "bcache \<Rightarrow> nat \<Rightarrow> u32 \<times> u32" where
  "ident s b = (dev (bufs s b), blockno (bufs s b))"

text \<open>Between the calls of \<open>read_release\<close> every slot is free and unlocked, and the
  identities in the cache are those of the blocks read so far, or the zero identity
  of a slot never assigned.\<close>

definition idle :: "bcache \<Rightarrow> (u32 \<times> u32) set \<Rightarrow> bool" where
  "idle s seen =
     (length (buckets s) = BUCKETSIZE
      \<and> (\<forall>i<BUCKETSIZE. distinct (buckets s ! i) \<and> buckets s ! i \<noteq> [])
      \<and> (\<forall>i<BUCKETSIZE. \<forall>j<BUCKETSIZE. \<forall>b\<in>set (buckets s ! i). b \<in> set (buckets s ! j) \<longrightarrow> i = j)
      \<and> (\<forall>i<BUCKETSIZE. \<forall>b\<in>set (buckets s ! i).
            refcnt (bufs s b) = 0 \<and> holder s b = None
            \<and> (ident s b \<in> seen \<or> ident s b = (0, 0))))"

text \<open>The identities along the list of bucket \<open>k\<close>, from \<open>head.next\<close> to \<open>head.prev\<close>.\<close>

definition ids :: "bcache \<Rightarrow> nat \<Rightarrow> (u32 \<times> u32) list" where
  "ids s k = map (ident s) (buckets s ! k)"

text \<open>The state after \<open>bread\<close> has recycled the free slot \<open>b\<close> of the bucket for block
  \<open>(d, n)\<close> and \<open>brelse\<close> has released it.\<close>

definition settled :: "bcache \<Rightarrow> u32 \<Rightarrow> u32 \<Rightarrow> nat \<Rightarrow> bcache" where
  "settled s d n b =
     s\<lparr>bufs := (bufs s)(b := (bufs s b)\<lparr>dev := d, blockno := n, data := disk s d n,
                                         valid := True, refcnt := 0\<rparr>),
       buckets := link_head (hash n) b (unlink b (buckets s))\<rparr>"

lemma find_cached_NoneI:
  "(\<And>x. x \<in> set xs \<Longrightarrow> dev (bs x) \<noteq> d \<or> blockno (bs x) \<noteq> n) \<Longrightarrow> find_cached bs d n xs = None"
  by (induction xs) auto

lemma find_free_last:
  "xs \<noteq> [] \<Longrightarrow> refcnt (bs (last xs)) = 0 \<Longrightarrow> find_free bs (rev xs) = Some (last xs)"
  by (cases xs rule: rev_cases) simp_all

lemma removeAll_last: "distinct xs \<Longrightarrow> xs \<noteq> [] \<Longrightarrow> removeAll (last xs) xs = butlast xs"
  by (cases xs rule: rev_cases) simp_all

lemma set_last_butlast: "xs \<noteq> [] \<Longrightarrow> set (last xs # butlast xs) = set xs"
  by (cases xs rule: rev_cases) auto

lemma distinct_last_butlast: "distinct xs \<Longrightarrow> xs \<noteq> [] \<Longrightarrow> distinct (last xs # butlast xs)"
  by (cases xs rule: rev_cases) auto

lemma local_miss_cycle:
  assumes miss: "find_cached (bufs s) d n (buckets s ! hash n) = None"
    and free: "find_free (bufs s) (rev (buckets s ! hash n)) = Some b"
    and lk: "holder s b = None"
  shows "\<exists>s1. bread s p d n = Locked s1 b \<and> brelse s1 p b = Inr (settled s d n b)"
proof -
  let ?s1 = "bread_fill ((bget_local s d n b)\<lparr>holder := (holder s)(b \<mapsto> p)\<rparr>) b"
  have "bget s p d n = Locked ((bget_local s d n b)\<lparr>holder := (holder s)(b \<mapsto> p)\<rparr>) b"
    by (simp add: bget_def Let_def miss free checkout_slot_def acquiresleep_def lk bget_local_def)
  then have r: "bread s p d n = Locked ?s1 b"
    by (simp add: bread_def)
  have h: "(holder s)(b := None) = holder s"
    using lk by (simp add: fun_upd_idem)
  have "brelse ?s1 p b = Inr (settled s d n b)"
    by (simp add: brelse_def holdingsleep_def releasesleep_def bread_fill_def bget_local_def
        settled_def Let_def h)
  with r show ?thesis by blast
qed

lemma idle_miss:
  assumes "idle s seen" and "(d, n) \<notin> seen" and "(d, n) \<noteq> (0, 0)"
  shows "find_cached (bufs s) d n (buckets s ! hash n) = None"
proof (rule find_cached_NoneI)
  fix x
  assume "x \<in> set (buckets s ! hash n)"
  with assms(1) hash_less [of n] have "ident s x \<in> seen \<or> ident s x = (0, 0)"
    unfolding idle_def by blast
  with assms(2,3) show "dev (bufs s x) \<noteq> d \<or> blockno (bufs s x) \<noteq> n"
    by (auto simp: ident_def)
qed

lemma idle_free:
  assumes "idle s seen" and "k < BUCKETSIZE"
  shows "find_free (bufs s) (rev (buckets s ! k)) = Some (last (buckets s ! k))"
    and "holder s (last (buckets s ! k)) = None"
proof -
  from assms have ne: "buckets s ! k \<noteq> []"
    by (simp add: idle_def)
  then have "last (buckets s ! k) \<in> set (buckets s ! k)"
    by simp
  with assms have "refcnt (bufs s (last (buckets s ! k))) = 0 \<and> holder s (last (buckets s ! k)) = None"
    unfolding idle_def by blast
  with ne show "find_free (bufs s) (rev (buckets s ! k)) = Some (last (buckets s ! k))"
    and "holder s (last (buckets s ! k)) = None"
    by (simp_all add: find_free_last)
qed

lemma settled_buckets:
  assumes idle: "idle s seen" and b: "b = last (buckets s ! hash n)"
  shows "buckets (settled s d n b) = (buckets s)[hash n := b # butlast (buckets s ! hash n)]"
proof (rule nth_equalityI)
  show "length (buckets (settled s d n b)) = length ((buckets s)[hash n := b # butlast (buckets s ! hash n)])"
    by (simp add: settled_def length_link_head length_unlink)
next
  fix i
  assume "i < length (buckets (settled s d n b))"
  then have i: "i < BUCKETSIZE"
    using idle by (simp add: settled_def length_link_head length_unlink idle_def)
  from idle have len: "length (buckets s) = BUCKETSIZE"
    by (simp add: idle_def)
  have k: "hash n < BUCKETSIZE"
    by (rule hash_less)
  from idle k have dk: "distinct (buckets s ! hash n)" and nk: "buckets s ! hash n \<noteq> []"
    by (simp_all add: idle_def)
  from nk b have bk: "b \<in> set (buckets s ! hash n)"
    by simp
  show "buckets (settled s d n b) ! i = (buckets s)[hash n := b # butlast (buckets s ! hash n)] ! i"
  proof (cases "i = hash n")
    case True
    with len k dk nk b show ?thesis
      by (simp add: settled_def link_head_def unlink_def removeAll_last)
  next
    case False
    with idle i k bk have "b \<notin> set (buckets s ! i)"
      unfolding idle_def by blast
    with False len i show ?thesis
      by (simp add: settled_def link_head_def unlink_def)
  qed
qed

lemma settled_sets:
  assumes idle: "idle s seen" and b: "b = last (buckets s ! hash n)" and i: "i < BUCKETSIZE"
  shows "set (buckets (settled s d n b) ! i) = set (buckets s ! i)"
proof -
  from idle have len: "length (buckets s) = BUCKETSIZE"
    by (simp add: idle_def)
  from idle hash_less [of n] have nk: "buckets s ! hash n \<noteq> []"
    by (simp add: idle_def)
  show ?thesis
    unfolding settled_buckets [OF idle b]
    using len i nk b hash_less [of n] set_last_butlast [OF nk]
    by (cases "i = hash n") simp_all
qed

lemma settled_idle:
  assumes idle: "idle s seen" and b: "b = last (buckets s ! hash n)"
  shows "idle (settled s d n b) (insert (d, n) seen)"
proof -
  let ?t = "settled s d n b"
  from idle have len: "length (buckets s) = BUCKETSIZE"
    by (simp add: idle_def)
  have k: "hash n < BUCKETSIZE"
    by (rule hash_less)
  from idle k have dk: "distinct (buckets s ! hash n)" and nk: "buckets s ! hash n \<noteq> []"
    by (simp_all add: idle_def)
  note sets = settled_sets [OF idle b]
  note sb = settled_buckets [OF idle b, of d]
  have l: "length (buckets ?t) = BUCKETSIZE"
    unfolding sb by (simp add: len)
  have d: "distinct (buckets ?t ! i) \<and> buckets ?t ! i \<noteq> []" if "i < BUCKETSIZE" for i
  proof (cases "i = hash n")
    case True
    from distinct_last_butlast [OF dk nk] have "distinct (b # butlast (buckets s ! hash n))"
      unfolding b .
    with True len k show ?thesis
      unfolding sb by simp
  next
    case False
    with idle that len show ?thesis
      unfolding sb by (simp add: idle_def)
  qed
  have j: "i = j" if "i < BUCKETSIZE" "j < BUCKETSIZE" "x \<in> set (buckets ?t ! i)"
    "x \<in> set (buckets ?t ! j)" for i j x
    using that idle sets unfolding idle_def by blast
  have f: "refcnt (bufs ?t x) = 0 \<and> holder ?t x = None
      \<and> (ident ?t x \<in> insert (d, n) seen \<or> ident ?t x = (0, 0))"
    if "i < BUCKETSIZE" "x \<in> set (buckets ?t ! i)" for i x
  proof -
    from that sets have x: "x \<in> set (buckets s ! i)"
      by simp
    with idle that(1) have old: "refcnt (bufs s x) = 0" "holder s x = None"
      "ident s x \<in> seen \<or> ident s x = (0, 0)"
      unfolding idle_def by blast+
    show ?thesis
    proof (cases "x = b")
      case True
      with old show ?thesis
        by (simp add: settled_def ident_def)
    next
      case False
      with old show ?thesis
        by (simp add: settled_def ident_def)
    qed
  qed
  show ?thesis
    unfolding idle_def using l d j f by blast
qed

lemma settled_ids_same:
  assumes idle: "idle s seen" and b: "b = last (buckets s ! hash n)"
  shows "ids (settled s d n b) (hash n) = (d, n) # butlast (ids s (hash n))"
proof -
  from idle have len: "length (buckets s) = BUCKETSIZE"
    by (simp add: idle_def)
  have k: "hash n < BUCKETSIZE"
    by (rule hash_less)
  from idle k have dk: "distinct (buckets s ! hash n)" and nk: "buckets s ! hash n \<noteq> []"
    by (simp_all add: idle_def)
  from distinct_last_butlast [OF dk nk] b have nb: "b \<notin> set (butlast (buckets s ! hash n))"
    by simp
  have "map (ident (settled s d n b)) (butlast (buckets s ! hash n))
      = map (ident s) (butlast (buckets s ! hash n))"
    using nb by (intro map_cong refl) (auto simp: ident_def settled_def)
  then show ?thesis
    using len k by (simp add: ids_def settled_buckets [OF idle b] map_butlast)
      (simp add: ident_def settled_def)
qed

lemma settled_ids_other:
  assumes idle: "idle s seen" and b: "b = last (buckets s ! hash n)"
    and k: "k < BUCKETSIZE" "k \<noteq> hash n"
  shows "ids (settled s d n b) k = ids s k"
proof -
  from idle have len: "length (buckets s) = BUCKETSIZE"
    by (simp add: idle_def)
  from idle hash_less [of n] have "buckets s ! hash n \<noteq> []"
    by (simp add: idle_def)
  with b have "b \<in> set (buckets s ! hash n)"
    by simp
  with idle k hash_less [of n] have nb: "b \<notin> set (buckets s ! k)"
    unfolding idle_def by blast
  have "map (ident (settled s d n b)) (buckets s ! k) = map (ident s) (buckets s ! k)"
    using nb by (intro map_cong refl) (auto simp: ident_def settled_def)
  then show ?thesis
    using k len by (simp add: ids_def settled_buckets [OF idle b])
qed

lemma take_butlast_tail:
  assumes "I \<noteq> []"
  shows "take (length I) (A @ z # butlast I) = take (length I) (A @ z # I)"
proof -
  from assms have "A @ z # butlast I = butlast (A @ z # I)"
    by (simp add: butlast_append)
  then show ?thesis
    by (simp add: take_butlast)
qed

lemma read_release_idle:
  assumes "idle s seen" and "distinct zs" and "set zs \<inter> seen = {}" and "(0, 0) \<notin> set zs"
    and "k < BUCKETSIZE"
  shows "\<exists>s' bs. read_release s p zs = Some (s', bs) \<and> idle s' (seen \<union> set zs)
      \<and> ids s' k = take (length (ids s k)) (rev [z\<leftarrow>zs. hash (snd z) = k] @ ids s k)"
  using assms
proof (induction zs arbitrary: s seen)
  case Nil
  then show ?case by simp
next
  case (Cons z zs)
  obtain d n where z: "z = (d, n)"
    by (cases z)
  let ?b = "last (buckets s ! hash n)"
  let ?t = "settled s d n ?b"
  from Cons.prems z have new: "(d, n) \<notin> seen" "(d, n) \<noteq> (0, 0)"
    by auto
  note miss = idle_miss [OF Cons.prems(1) new]
  note free = idle_free [OF Cons.prems(1) hash_less, of n]
  from local_miss_cycle [OF miss free, of p] obtain s1
    where s1: "bread s p d n = Locked s1 ?b" "brelse s1 p ?b = Inr ?t"
    by blast
  have idle': "idle ?t (insert z seen)"
    unfolding z by (rule settled_idle [OF Cons.prems(1) refl])
  from Cons.prems have rest: "distinct zs" "set zs \<inter> insert z seen = {}" "(0, 0) \<notin> set zs"
    by auto
  from Cons.IH [OF idle' rest Cons.prems(5)] obtain s' bs
    where run: "read_release ?t p zs = Some (s', bs)"
      and idle'': "idle s' (insert z seen \<union> set zs)"
      and ids': "ids s' k = take (length (ids ?t k)) (rev [z\<leftarrow>zs. hash (snd z) = k] @ ids ?t k)"
    by blast
  have r: "read_release s p (z # zs) = Some (s', ?b # bs)"
    by (simp add: z s1 run)
  have i: "idle s' (seen \<union> set (z # zs))"
    using idle'' by simp
  from Cons.prems(1,5) have ne: "ids s k \<noteq> []"
    by (simp add: ids_def idle_def)
  have "ids s' k = take (length (ids s k)) (rev [z\<leftarrow>z # zs. hash (snd z) = k] @ ids s k)"
  proof (cases "hash n = k")
    case True
    from settled_ids_same [OF Cons.prems(1) refl, where n = n and d = d] True
    have t: "ids ?t k = (d, n) # butlast (ids s k)"
      by simp
    have len: "length (ids ?t k) = length (ids s k)"
      using ne by (simp add: t)
    have f: "rev [z\<leftarrow>z # zs. hash (snd z) = k] @ ids s k
        = rev [z\<leftarrow>zs. hash (snd z) = k] @ (d, n) # ids s k"
      using True by (simp add: z)
    show ?thesis
      by (subst ids', subst len, subst t, subst f) (rule take_butlast_tail [OF ne])
  next
    case False
    with settled_ids_other [OF Cons.prems(1) refl Cons.prems(5), where n = n and d = d]
    have t: "ids ?t k = ids s k"
      by simp
    show ?thesis
      unfolding ids' t using False by (simp add: z)
  qed
  with r i show ?case by blast
qed

lemma boot_bucket:
  "i < BUCKETSIZE \<Longrightarrow> buckets boot ! i = rev (map ((+) (i * BUFFERSIZE)) [0..<BUFFERSIZE])"
  by (simp add: boot_def binit_def fold_cons_offset)

lemma boot_idle: "idle boot {}"
proof -
  have "pool_inv boot"
    unfolding boot_def by (rule binit_pool)
  then have dis: "\<forall>i<BUCKETSIZE. \<forall>j<BUCKETSIZE. \<forall>b\<in>set (buckets boot ! i).
      b \<in> set (buckets boot ! j) \<longrightarrow> i = j"
    and len: "length (buckets boot) = BUCKETSIZE"
    by (simp_all add: pool_inv_def)
  have lists: "distinct (buckets boot ! i) \<and> buckets boot ! i \<noteq> []" if "i < BUCKETSIZE" for i
    using that by (simp add: boot_bucket distinct_map BUFFERSIZE_def)
  have slots: "refcnt (bufs boot b) = 0 \<and> holder boot b = None \<and> ident boot b = (0, 0)" for b
    by (simp add: boot_def binit_def zeroed_def zero_buf_def ident_def)
  show ?thesis
    unfolding idle_def using len lists dis slots by blast
qed

lemma boot_ids: "k < BUCKETSIZE \<Longrightarrow> ids boot k = replicate BUFFERSIZE (0, 0)"
proof -
  assume k: "k < BUCKETSIZE"
  have "ident boot = (\<lambda>_. (0, 0))"
    by (rule ext) (simp add: boot_def binit_def zeroed_def zero_buf_def ident_def)
  then show ?thesis
    by (simp add: ids_def boot_bucket [OF k] map_replicate_const)
qed

text \<open>
  The identity a read pushes out, computed from the list of blocks alone: of the
  blocks read before the last one, keep those of the shard of the last block, newest
  first; the identity is the \<open>BUFFERSIZE\<close>-th of them, and the zero identity of a
  slot never assigned when there are fewer.
\<close>

definition evicted :: "(u32 \<times> u32) list \<Rightarrow> u32 \<times> u32" where
  "evicted blocks =
     last (take BUFFERSIZE
       (rev [z\<leftarrow>butlast blocks. hash (snd z) = hash (snd (last blocks))]
        @ replicate BUFFERSIZE (0, 0)))"

lemma last_reuse_law:
  assumes ne: "blocks \<noteq> []" and dist: "distinct blocks" and nz: "(0, 0) \<notin> set blocks"
  shows "\<exists>b. last_reuse blocks = Some (b, fst (evicted blocks), snd (evicted blocks), True)"
proof -
  obtain d n where y: "last blocks = (d, n)"
    by (cases "last blocks")
  let ?zs = "butlast blocks"
  from ne have split: "blocks = ?zs @ [(d, n)]"
    using y by (metis append_butlast_last_id)
  from dist split have "distinct (?zs @ [(d, n)])"
    by simp
  then have zs1: "distinct ?zs" and new1: "(d, n) \<notin> set ?zs"
    by simp_all
  from nz split have "(0, 0) \<notin> set (?zs @ [(d, n)])"
    by simp
  then have zs3: "(0, 0) \<notin> set ?zs" and new2: "(d, n) \<noteq> (0, 0)"
    by auto
  note new = new1 new2
  from read_release_idle [OF boot_idle zs1 _ zs3 hash_less, of 1 n] obtain s bs
    where run: "read_release boot 1 ?zs = Some (s, bs)"
      and idle: "idle s (set ?zs)"
      and ids: "ids s (hash n)
        = take (length (ids boot (hash n))) (rev [z\<leftarrow>?zs. hash (snd z) = hash n] @ ids boot (hash n))"
    by auto
  let ?b = "last (buckets s ! hash n)"
  note miss = idle_miss [OF idle new]
  note free = idle_free [OF idle hash_less, of n]
  from local_miss_cycle [OF miss free, of 1] obtain s1 where s1: "bread s 1 d n = Locked s1 ?b"
    by blast
  from idle hash_less [of n] have "buckets s ! hash n \<noteq> []"
    by (simp add: idle_def)
  then have "ident s ?b = last (ids s (hash n))"
    by (simp add: ids_def last_map)
  also have "\<dots> = evicted blocks"
    by (simp add: ids boot_ids [OF hash_less] evicted_def y)
  finally have e: "ident s ?b = evicted blocks" .
  have id: "dev (bufs s ?b) = fst (evicted blocks)" "blockno (bufs s ?b) = snd (evicted blocks)"
    using e [symmetric] by (simp_all add: ident_def)
  have "last_reuse blocks = Some (?b, fst (evicted blocks), snd (evicted blocks), True)"
    by (simp only: last_reuse_def run y option.case prod.case fst_conv snd_conv s1 checkout.case
        id miss free simp_thms)
  then show ?thesis by blast
qed

lemma reuses_first_iff:
  assumes "blocks \<noteq> []" and "distinct blocks" and "(0, 0) \<notin> set blocks"
  shows "reuses_first blocks \<longleftrightarrow> evicted blocks = hd blocks"
proof -
  from last_reuse_law [OF assms] obtain b
    where "last_reuse blocks = Some (b, fst (evicted blocks), snd (evicted blocks), True)"
    by blast
  then show ?thesis
    by (simp add: reuses_first_def)
qed

lemma evicted_first:
  assumes shard: "hash (snd (hd blocks)) = hash (snd (last blocks))"
    and five: "length [z\<leftarrow>butlast blocks. hash (snd z) = hash (snd (last blocks))] = BUFFERSIZE"
  shows "evicted blocks = hd blocks"
proof -
  let ?P = "\<lambda>z. hash (snd z) = hash (snd (last blocks))"
  define X where "X = rev (filter ?P (butlast blocks))"
  from five have "butlast blocks \<noteq> []"
    by (auto simp: BUFFERSIZE_def)
  then obtain x r where xr: "butlast blocks = x # r"
    by (cases "butlast blocks") auto
  then have "blocks \<noteq> []"
    by auto
  with xr have "hd blocks = x"
    by (cases blocks) (auto split: if_splits)
  with shard xr have f: "filter ?P (butlast blocks) = hd blocks # filter ?P r"
    by simp
  have lx: "length X = BUFFERSIZE"
    using five by (simp add: X_def)
  have "X = rev (filter ?P r) @ [hd blocks]"
    by (simp add: X_def f)
  then have last: "last X = hd blocks"
    by simp
  have "take (length X) (X @ replicate BUFFERSIZE (0, 0)) = X"
    by simp
  then have "take BUFFERSIZE (X @ replicate BUFFERSIZE (0, 0)) = X"
    by (simp only: lx)
  then have "evicted blocks = last X"
    by (simp only: evicted_def X_def)
  with last show ?thesis
    by simp
qed

text \<open>The \<open>k\<close> blocks \<open>n\<close>, \<open>n + inc\<close>, \<open>n + 2 inc\<close>, \<open>\<dots>\<close> of device \<open>d\<close>.\<close>

fun stride :: "u32 \<Rightarrow> u32 \<Rightarrow> u32 \<Rightarrow> nat \<Rightarrow> (u32 \<times> u32) list" where
  "stride d n inc 0 = []"
| "stride d n inc (Suc k) = (d, n) # stride d (n + inc) inc k"

text \<open>
  Two runs of distinct blocks of device 1: the \<open>NBUF + 1\<close> blocks \<open>0, \<dots>, 65\<close>, and the
  \<open>NBUF\<close> blocks \<open>0, 13, \<dots>, 832\<close> of shard 0 followed by block 1.
\<close>

definition run_0_65 :: "(u32 \<times> u32) list" where
  "run_0_65 = stride 1 0 1 66"

definition run_shard0_then_1 :: "(u32 \<times> u32) list" where
  "run_shard0_then_1 = stride 1 0 13 65 @ [(1, 1)]"

text \<open>
  C8, as the code has it. Distinct blocks, none with the zero identity, are read and
  released in turn from the initial state. The last read finds a free slot in the
  shard of its block and takes it (it never goes to another shard); the identity
  that slot held is the one \<open>evicted\<close> computes: the block read \<open>BUFFERSIZE\<close> reads
  earlier among those of the same shard, or none when fewer went there. So the last
  read reuses the slot of the first block exactly when \<open>evicted\<close> gives the first
  block, which is the case when the first block is in the shard of the last and
  \<open>BUFFERSIZE\<close> of the blocks before the last are in that shard.
\<close>

theorem C8_per_shard_reuse:
  "blocks \<noteq> [] \<and> distinct blocks \<and> (0, 0) \<notin> set blocks \<longrightarrow>
     (\<exists>b. last_reuse blocks = Some (b, fst (evicted blocks), snd (evicted blocks), True))
     \<and> (reuses_first blocks \<longleftrightarrow> evicted blocks = hd blocks)
     \<and> (hash (snd (hd blocks)) = hash (snd (last blocks))
        \<and> length [z\<leftarrow>butlast blocks. hash (snd z) = hash (snd (last blocks))] = BUFFERSIZE
        \<longrightarrow> reuses_first blocks)"
  using last_reuse_law [of blocks] reuses_first_iff [of blocks] evicted_first [of blocks]
  by blast

text \<open>The \<open>NBUF + 1\<close> blocks \<open>(1, 0), \<dots>, (1, 65)\<close>: the last read reuses the slot of
  block \<open>(1, 0)\<close>. And 65 blocks of shard 0 followed by block \<open>(1, 1)\<close>: the last read
  takes a slot of shard 1 that was never assigned, and nothing is evicted.\<close>

theorem C8_per_shard_reuse_witness:
  "(run_0_65 \<noteq> [] \<and> distinct run_0_65 \<and> (0, 0) \<notin> set run_0_65)
   \<and> (length run_0_65 = NBUF + 1 \<and> hd run_0_65 = (1, 0) \<and> last run_0_65 = (1, 65))
   \<and> (hash (snd (hd run_0_65)) = hash (snd (last run_0_65))
      \<and> length [z\<leftarrow>butlast run_0_65. hash (snd z) = hash (snd (last run_0_65))] = BUFFERSIZE)
   \<and> (\<exists>b. last_reuse run_0_65 = Some (b, 1, 0, True))
   \<and> reuses_first run_0_65
   \<and> (run_shard0_then_1 \<noteq> [] \<and> distinct run_shard0_then_1 \<and> (0, 0) \<notin> set run_shard0_then_1)
   \<and> (length run_shard0_then_1 = NBUF + 1 \<and> hd run_shard0_then_1 = (1, 0)
      \<and> last run_shard0_then_1 = (1, 1))
   \<and> (\<exists>b. last_reuse run_shard0_then_1 = Some (b, 0, 0, True))
   \<and> \<not> reuses_first run_shard0_then_1"
proof -
  have a: "run_0_65 \<noteq> [] \<and> distinct run_0_65 \<and> (0, 0) \<notin> set run_0_65"
    by code_simp
  have al: "length run_0_65 = NBUF + 1 \<and> hd run_0_65 = (1, 0) \<and> last run_0_65 = (1, 65)"
    by code_simp
  have a5: "hash (snd (hd run_0_65)) = hash (snd (last run_0_65))
      \<and> length [z\<leftarrow>butlast run_0_65. hash (snd z) = hash (snd (last run_0_65))] = BUFFERSIZE"
    by code_simp
  have ae: "evicted run_0_65 = (1, 0)"
    by code_simp
  have b: "run_shard0_then_1 \<noteq> [] \<and> distinct run_shard0_then_1
      \<and> (0, 0) \<notin> set run_shard0_then_1"
    by code_simp
  have bl: "length run_shard0_then_1 = NBUF + 1 \<and> hd run_shard0_then_1 = (1, 0)
      \<and> last run_shard0_then_1 = (1, 1)"
    by code_simp
  have be: "evicted run_shard0_then_1 = (0, 0)" "hd run_shard0_then_1 = (1, 0)"
    by code_simp+
  note ta = C8_per_shard_reuse [of run_0_65, rule_format, OF a]
  note tb = C8_per_shard_reuse [of run_shard0_then_1, rule_format, OF b]
  from ta have a1: "\<exists>b. last_reuse run_0_65 = Some (b, 1, 0, True)"
    unfolding ae by simp
  from ta a5 have a2: "reuses_first run_0_65"
    by blast
  from tb have b1: "\<exists>b. last_reuse run_shard0_then_1 = Some (b, 0, 0, True)"
    unfolding be by simp
  from tb have b2: "\<not> reuses_first run_shard0_then_1"
    unfolding be by simp
  show ?thesis
    by (rule conjI [OF a conjI [OF al conjI [OF a5 conjI [OF a1 conjI [OF a2 conjI [OF b
        conjI [OF bl conjI [OF b1 b2]]]]]]]])
qed

text \<open>
  C8 as stated fails. The 66 distinct blocks \<open>(1, 13 k)\<close> all hash to bucket 0, whose
  five slots are reused in turn: the last read takes slot 0 when it holds block
  \<open>(1, 780)\<close>, the block read five reads earlier, not the first block \<open>(1, 0)\<close>.
\<close>

theorem C8_counterexample:
  "distinct (map (\<lambda>k. (1 :: u32, of_nat (13 * k) :: u32)) [0..<66])
   \<and> length (map (\<lambda>k. (1 :: u32, of_nat (13 * k) :: u32)) [0..<66]) = NBUF + 1
   \<and> last_reuse (map (\<lambda>k. (1, of_nat (13 * k))) [0..<66]) = Some (0, 1, 780, True)
   \<and> \<not> reuses_first (map (\<lambda>k. (1, of_nat (13 * k))) [0..<66])"
proof -
  have run: "last_reuse (map (\<lambda>k. (1, of_nat (13 * k))) [0..<66]) = Some (0, 1, 780, True)"
    by code_simp
  have first: "hd (map (\<lambda>k. (1 :: u32, of_nat (13 * k) :: u32)) [0..<66]) = (1, 0)"
    by code_simp
  have blocks: "distinct (map (\<lambda>k. (1 :: u32, of_nat (13 * k) :: u32)) [0..<66])
      \<and> length (map (\<lambda>k. (1 :: u32, of_nat (13 * k) :: u32)) [0..<66]) = NBUF + 1"
    by code_simp
  have "\<not> reuses_first (map (\<lambda>k. (1, of_nat (13 * k))) [0..<66])"
    unfolding reuses_first_def run first by simp
  with blocks run show ?thesis
    by (intro conjI) (erule conjunct1, erule conjunct2, assumption+)
qed

section \<open>Block addresses of an inode (Lab\_9:File\_System/kernel/fs.c)\<close>

text \<open>
  \<open>bmap\<close> and \<open>itrunc\<close> work on one inode \<open>ip\<close> and, through \<open>bread\<close>, on the
  contents of the index blocks of the device \<open>ip->dev\<close>. Block numbers and indices
  are \<open>uint\<close> in the source; the two functions only compare them, subtract after a
  comparison, divide and take remainders, so they are natural numbers here.

  The constants \<open>NDIRECT\<close> and \<open>NINDIRECT\<close> come from \<open>fs.h\<close>, which is not among the
  sources: they are parameters, collected in a layout.
\<close>

record fs_layout =
  NDIRECT :: nat
  NINDIRECT :: nat

text \<open>Modelled from the spec: the macro \<open>ND_INDIRECT\<close> of \<open>fs.h\<close> is missing; the spec
  gives the double-indirect range as \<open>NINDIRECT\<close> squared.\<close>

definition ND_INDIRECT :: "fs_layout \<Rightarrow> nat" where
  "ND_INDIRECT L = NINDIRECT L * NINDIRECT L"

text \<open>The calls into the other layers, in the order they are made.\<close>

datatype event =
    Balloc nat nat
  | Bread nat nat
  | Log_write nat
  | Brelse nat
  | Bfree nat nat
  | Iupdate

text \<open>
  The inode (\<open>i_dev\<close>, \<open>i_size\<close>, \<open>i_addrs\<close>) together with what the calls act on:
  \<open>blocks a j\<close> is the \<open>j\<close>-th \<open>uint\<close> of the buffer \<open>bread(ip->dev, a)\<close> returns, and
  \<open>trace\<close> records the calls. A buffer is named by its block number.

  Modelled from the spec: \<open>balloc\<close> is not part of these sources; the spec lists it
  as \<open>allocate_block(device) -> blockNumber\<close>. Its results are taken, call after
  call, from an arbitrary sequence \<open>stock\<close>; \<open>nalloc\<close> counts the calls. \<open>bfree\<close>,
  \<open>log_write\<close>, \<open>brelse\<close> and \<open>iupdate\<close> only leave their event.
\<close>

record fs =
  i_dev :: nat
  i_size :: nat
  i_addrs :: "nat list"
  blocks :: "nat \<Rightarrow> nat \<Rightarrow> nat"
  stock :: "nat \<Rightarrow> nat"
  nalloc :: nat
  trace :: "event list"

definition emit :: "event \<Rightarrow> fs \<Rightarrow> fs" where
  "emit e st = st\<lparr>trace := trace st @ [e]\<rparr>"

definition ext_balloc :: "fs \<Rightarrow> nat \<times> fs" where
  "ext_balloc st =
     (stock st (nalloc st),
      emit (Balloc (i_dev st) (stock st (nalloc st))) (st\<lparr>nalloc := nalloc st + 1\<rparr>))"

definition ext_bread :: "nat \<Rightarrow> fs \<Rightarrow> fs" where
  "ext_bread a st = emit (Bread (i_dev st) a) st"

definition ext_log_write :: "nat \<Rightarrow> fs \<Rightarrow> fs" where
  "ext_log_write a st = emit (Log_write a) st"

definition ext_brelse :: "nat \<Rightarrow> fs \<Rightarrow> fs" where
  "ext_brelse a st = emit (Brelse a) st"

definition ext_bfree :: "nat \<Rightarrow> fs \<Rightarrow> fs" where
  "ext_bfree a st = emit (Bfree (i_dev st) a) st"

definition ext_iupdate :: "fs \<Rightarrow> fs" where
  "ext_iupdate st = emit Iupdate st"

subsection \<open>\<open>bmap\<close>\<close>

text \<open>\<open>if((addr = ip->addrs[i]) == 0) ip->addrs[i] = addr = balloc(ip->dev);\<close>\<close>

definition inode_entry :: "nat \<Rightarrow> fs \<Rightarrow> nat \<times> fs" where
  "inode_entry i st =
     (if i_addrs st ! i = 0
      then (let (addr, st1) = ext_balloc st in (addr, st1\<lparr>i_addrs := (i_addrs st1)[i := addr]\<rparr>))
      else (i_addrs st ! i, st))"

text \<open>\<open>if((addr = a[j]) == 0){ a[j] = addr = balloc(ip->dev); log_write(bp); }\<close>
  for the buffer \<open>bp\<close> of block \<open>blk\<close>.\<close>

definition block_entry :: "nat \<Rightarrow> nat \<Rightarrow> fs \<Rightarrow> nat \<times> fs" where
  "block_entry blk j st =
     (if blocks st blk j = 0
      then (let (addr, st1) = ext_balloc st
            in (addr, ext_log_write blk (st1\<lparr>blocks := (blocks st1)(blk := (blocks st1 blk)(j := addr))\<rparr>)))
      else (blocks st blk j, st))"

definition bmap :: "fs_layout \<Rightarrow> fs \<Rightarrow> nat \<Rightarrow> string + (nat \<times> fs)" where
  "bmap L st bn =
     (if bn < NDIRECT L then Inr (inode_entry bn st)
      else
        let bn1 = bn - NDIRECT L in
        if bn1 < NINDIRECT L then
          (let (addr, st1) = inode_entry (NDIRECT L) st;
               st2 = ext_bread addr st1;
               (addr', st3) = block_entry addr bn1 st2
           in Inr (addr', ext_brelse addr st3))
        else
          let bn2 = bn1 - NINDIRECT L in
          if bn2 < ND_INDIRECT L then
            (let indirect_index = bn2 div NINDIRECT L;
                 direct_index = bn2 mod NINDIRECT L;
                 (db_addr, st1) = inode_entry (NDIRECT L + 1) st;
                 st2 = ext_bread db_addr st1;
                 (addr, st3) = block_entry db_addr indirect_index st2;
                 st4 = ext_bread addr st3;
                 (addr', st5) = block_entry addr direct_index st4
             in Inr (addr', ext_brelse db_addr (ext_brelse addr st5)))
          else Inl ''bmap: out of range'')"

subsection \<open>\<open>itrunc\<close>\<close>

text \<open>\<open>for(j = 0; j < NINDIRECT; j++) if(a[j]) bfree(ip->dev, a[j]);\<close> over the buffer
  of block \<open>blk\<close>.\<close>

definition free_entries :: "fs_layout \<Rightarrow> nat \<Rightarrow> fs \<Rightarrow> fs" where
  "free_entries L blk st =
     fold (\<lambda>j s. if blocks s blk j \<noteq> 0 then ext_bfree (blocks s blk j) s else s) [0..<NINDIRECT L] st"

definition free_direct :: "fs_layout \<Rightarrow> fs \<Rightarrow> fs" where
  "free_direct L st =
     fold (\<lambda>i s. if i_addrs s ! i \<noteq> 0
                  then (ext_bfree (i_addrs s ! i) s)\<lparr>i_addrs := (i_addrs s)[i := 0]\<rparr>
                  else s) [0..<NDIRECT L] st"

definition free_indirect :: "fs_layout \<Rightarrow> fs \<Rightarrow> fs" where
  "free_indirect L st =
     (if i_addrs st ! NDIRECT L \<noteq> 0
      then (let blk = i_addrs st ! NDIRECT L;
                s1 = ext_bread blk st;
                s2 = free_entries L blk s1;
                s3 = ext_brelse blk s2;
                s4 = ext_bfree blk s3
            in s4\<lparr>i_addrs := (i_addrs s4)[NDIRECT L := 0]\<rparr>)
      else st)"

definition free_child :: "fs_layout \<Rightarrow> nat \<Rightarrow> nat \<Rightarrow> fs \<Rightarrow> fs" where
  "free_child L dblk i s =
     (if blocks s dblk i \<noteq> 0
      then (let blk = blocks s dblk i;
                s1 = ext_bread blk s;
                s2 = free_entries L blk s1;
                s3 = ext_brelse blk s2
            in ext_bfree blk s3)
      else s)"

definition free_double :: "fs_layout \<Rightarrow> fs \<Rightarrow> fs" where
  "free_double L st =
     (if i_addrs st ! (NDIRECT L + 1) \<noteq> 0
      then (let dblk = i_addrs st ! (NDIRECT L + 1);
                s1 = ext_bread dblk st;
                s2 = fold (free_child L dblk) [0..<NINDIRECT L] s1;
                s3 = ext_brelse dblk s2;
                s4 = ext_bfree dblk s3
            in s4\<lparr>i_addrs := (i_addrs s4)[NDIRECT L + 1 := 0]\<rparr>)
      else st)"

definition itrunc :: "fs_layout \<Rightarrow> fs \<Rightarrow> fs" where
  "itrunc L st = ext_iupdate ((free_double L (free_indirect L (free_direct L st)))\<lparr>i_size := 0\<rparr>)"

subsection \<open>What \<open>itrunc\<close> is to free\<close>

text \<open>The allocated entries of the index block \<open>blk\<close>, in index order.\<close>

definition entries :: "fs_layout \<Rightarrow> fs \<Rightarrow> nat \<Rightarrow> nat list" where
  "entries L st blk = filter (\<lambda>a. a \<noteq> 0) (map (blocks st blk) [0..<NINDIRECT L])"

text \<open>
  The blocks reachable from the inode, in the order the spec gives for \<open>truncate\<close>:
  the direct blocks; the blocks of the single-indirect block and then that block;
  for every child of the double-indirect block its blocks and then the child; the
  double-indirect block last.
\<close>

definition reachable :: "fs_layout \<Rightarrow> fs \<Rightarrow> nat list" where
  "reachable L st =
     filter (\<lambda>a. a \<noteq> 0) (take (NDIRECT L) (i_addrs st))
     @ (if i_addrs st ! NDIRECT L \<noteq> 0
        then entries L st (i_addrs st ! NDIRECT L) @ [i_addrs st ! NDIRECT L] else [])
     @ (if i_addrs st ! (NDIRECT L + 1) \<noteq> 0
        then concat (map (\<lambda>c. entries L st c @ [c]) (entries L st (i_addrs st ! (NDIRECT L + 1))))
             @ [i_addrs st ! (NDIRECT L + 1)]
        else [])"

fun freed :: "event list \<Rightarrow> nat list" where
  "freed [] = []"
| "freed (Bfree d a # es) = a # freed es"
| "freed (e # es) = freed es"

fun bread_calls :: "event list \<Rightarrow> nat list" where
  "bread_calls [] = []"
| "bread_calls (Bread d a # es) = a # bread_calls es"
| "bread_calls (e # es) = bread_calls es"

text \<open>The events of one index block: read it, free its entries, release it, free it.\<close>

definition index_events :: "fs_layout \<Rightarrow> fs \<Rightarrow> nat \<Rightarrow> event list" where
  "index_events L st blk =
     Bread (i_dev st) blk # map (Bfree (i_dev st)) (entries L st blk)
     @ [Brelse blk, Bfree (i_dev st) blk]"

definition itrunc_events :: "fs_layout \<Rightarrow> fs \<Rightarrow> event list" where
  "itrunc_events L st =
     map (Bfree (i_dev st)) (filter (\<lambda>a. a \<noteq> 0) (take (NDIRECT L) (i_addrs st)))
     @ (if i_addrs st ! NDIRECT L \<noteq> 0 then index_events L st (i_addrs st ! NDIRECT L) else [])
     @ (if i_addrs st ! (NDIRECT L + 1) \<noteq> 0
        then Bread (i_dev st) (i_addrs st ! (NDIRECT L + 1))
             # concat (map (index_events L st) (entries L st (i_addrs st ! (NDIRECT L + 1))))
             @ [Brelse (i_addrs st ! (NDIRECT L + 1)), Bfree (i_dev st) (i_addrs st ! (NDIRECT L + 1))]
        else [])
     @ [Iupdate]"

text \<open>The events of the call \<open>itrunc L st\<close>: what it adds to the trace.\<close>

definition calls :: "fs_layout \<Rightarrow> fs \<Rightarrow> event list" where
  "calls L st = drop (length (trace st)) (trace (itrunc L st))"

lemma freed_append: "freed (xs @ ys) = freed xs @ freed ys"
  by (induction xs rule: freed.induct) auto

lemma freed_map_Bfree: "freed (map (Bfree d) xs) = xs"
  by (induction xs) auto

lemma bread_calls_append: "bread_calls (xs @ ys) = bread_calls xs @ bread_calls ys"
  by (induction xs rule: bread_calls.induct) auto

lemma bread_calls_map_Bfree: "bread_calls (map (Bfree d) xs) = []"
  by (induction xs) auto

lemma freed_index_events: "freed (index_events L st blk) = entries L st blk @ [blk]"
  by (simp add: index_events_def freed_append freed_map_Bfree)

lemma freed_concat_index_events:
  "freed (concat (map (index_events L st) cs)) = concat (map (\<lambda>c. entries L st c @ [c]) cs)"
  by (induction cs) (auto simp: freed_append freed_index_events)

lemma freed_itrunc_events: "freed (itrunc_events L st) = reachable L st"
  by (simp add: itrunc_events_def reachable_def freed_append freed_map_Bfree freed_index_events
      freed_concat_index_events)

subsection \<open>The loops of \<open>itrunc\<close>\<close>

lemma fold_free_entries:
  "fold (\<lambda>j s. if blocks s blk j \<noteq> 0 then ext_bfree (blocks s blk j) s else s) js st
   = st\<lparr>trace := trace st @ map (Bfree (i_dev st)) (filter (\<lambda>a. a \<noteq> 0) (map (blocks st blk) js))\<rparr>"
  by (induction js arbitrary: st) (auto simp: ext_bfree_def emit_def)

lemma free_entries_eq:
  "free_entries L blk st = st\<lparr>trace := trace st @ map (Bfree (i_dev st)) (entries L st blk)\<rparr>"
  unfolding free_entries_def entries_def by (rule fold_free_entries)

lemma entries_cong: "blocks s = blocks st \<Longrightarrow> entries L s blk = entries L st blk"
  by (simp add: entries_def)

lemma index_events_cong:
  "blocks s = blocks st \<Longrightarrow> i_dev s = i_dev st \<Longrightarrow> index_events L s blk = index_events L st blk"
  by (simp add: index_events_def entries_def)

lemma free_index_block:
  "ext_bfree blk (ext_brelse blk (free_entries L blk (ext_bread blk st)))
   = st\<lparr>trace := trace st @ index_events L st blk\<rparr>"
  by (simp add: free_entries_eq ext_bfree_def ext_brelse_def ext_bread_def emit_def index_events_def
      entries_def)

lemma free_child_eq:
  "free_child L dblk i s =
     (if blocks s dblk i \<noteq> 0 then s\<lparr>trace := trace s @ index_events L s (blocks s dblk i)\<rparr> else s)"
  by (simp add: free_child_def Let_def free_index_block)

lemma fold_free_child:
  "fold (free_child L dblk) js st
   = st\<lparr>trace := trace st
        @ concat (map (index_events L st) (filter (\<lambda>a. a \<noteq> 0) (map (blocks st dblk) js)))\<rparr>"
proof (induction js arbitrary: st)
  case Nil
  then show ?case by simp
next
  case (Cons j js)
  let ?s = "free_child L dblk j st"
  have same: "blocks ?s = blocks st" "i_dev ?s = i_dev st"
    by (simp_all add: free_child_eq)
  have ev: "index_events L ?s = index_events L st"
    by (rule ext) (rule index_events_cong, simp_all add: same)
  show ?case
    by (simp add: Cons.IH ev same) (simp add: free_child_eq)
qed

lemma fold_free_direct:
  "n \<le> length (i_addrs st) \<Longrightarrow>
   fold (\<lambda>i s. if i_addrs s ! i \<noteq> 0
                then (ext_bfree (i_addrs s ! i) s)\<lparr>i_addrs := (i_addrs s)[i := 0]\<rparr>
                else s) [0..<n] st
   = st\<lparr>i_addrs := replicate n 0 @ drop n (i_addrs st),
        trace := trace st @ map (Bfree (i_dev st)) (filter (\<lambda>a. a \<noteq> 0) (take n (i_addrs st)))\<rparr>"
proof (induction n)
  case 0
  then show ?case by simp
next
  case (Suc n)
  let ?A = "i_addrs st"
  from Suc.prems have n: "n < length ?A" by simp
  have at: "(replicate n 0 @ drop n ?A) ! n = ?A ! n"
    using n by (simp add: nth_append)
  have upd: "(replicate n 0 @ drop n ?A)[n := 0] = replicate (Suc n) 0 @ drop (Suc n) ?A"
    using n by (simp add: list_update_append replicate_append_same Cons_nth_drop_Suc [symmetric])
  have keep: "?A ! n = 0 \<Longrightarrow> replicate n 0 @ drop n ?A = replicate (Suc n) 0 @ drop (Suc n) ?A"
    using n by (simp add: replicate_append_same Cons_nth_drop_Suc [symmetric])
  have tk: "take (Suc n) ?A = take n ?A @ [?A ! n]"
    using n by (simp add: take_Suc_conv_app_nth)
  from Suc.IH n show ?case
    by (auto simp: at upd keep tk ext_bfree_def emit_def)
qed

lemma free_direct_eq:
  "NDIRECT L \<le> length (i_addrs st) \<Longrightarrow>
   free_direct L st
   = st\<lparr>i_addrs := replicate (NDIRECT L) 0 @ drop (NDIRECT L) (i_addrs st),
        trace := trace st
          @ map (Bfree (i_dev st)) (filter (\<lambda>a. a \<noteq> 0) (take (NDIRECT L) (i_addrs st)))\<rparr>"
  unfolding free_direct_def by (rule fold_free_direct)

lemma zeroed_prefix_nth:
  "n \<le> m \<Longrightarrow> m < length A \<Longrightarrow> (replicate n (0::nat) @ drop n A) ! m = A ! m"
  by (simp add: nth_append)

lemma zeroed_prefix_update:
  "n < length A \<Longrightarrow> (replicate n (0::nat) @ drop n A)[n := 0] = replicate (Suc n) 0 @ drop (Suc n) A"
  by (simp add: list_update_append replicate_append_same Cons_nth_drop_Suc [symmetric])

lemma zeroed_prefix_keep:
  "n < length A \<Longrightarrow> A ! n = 0 \<Longrightarrow>
   replicate n (0::nat) @ drop n A = replicate (Suc n) 0 @ drop (Suc n) A"
  by (simp add: replicate_append_same Cons_nth_drop_Suc [symmetric])

lemma index_events_frame:
  "index_events L (s\<lparr>trace := t\<rparr>) = index_events L s"
  "index_events L (s\<lparr>i_addrs := A\<rparr>) = index_events L s"
  by (rule ext, simp add: index_events_def entries_def)+

lemma entries_frame:
  "entries L (s\<lparr>trace := t\<rparr>) = entries L s"
  "entries L (s\<lparr>i_addrs := A\<rparr>) = entries L s"
  by (rule ext, simp add: entries_def)+

lemma free_indirect_eq:
  "free_indirect L st =
     (if i_addrs st ! NDIRECT L \<noteq> 0
      then st\<lparr>i_addrs := (i_addrs st)[NDIRECT L := 0],
              trace := trace st @ index_events L st (i_addrs st ! NDIRECT L)\<rparr>
      else st)"
  by (simp add: free_indirect_def Let_def free_index_block)

lemma free_double_eq:
  "free_double L st =
     (if i_addrs st ! (NDIRECT L + 1) \<noteq> 0
      then st\<lparr>i_addrs := (i_addrs st)[NDIRECT L + 1 := 0],
              trace := trace st
                @ Bread (i_dev st) (i_addrs st ! (NDIRECT L + 1))
                # concat (map (index_events L st) (entries L st (i_addrs st ! (NDIRECT L + 1))))
                @ [Brelse (i_addrs st ! (NDIRECT L + 1)),
                   Bfree (i_dev st) (i_addrs st ! (NDIRECT L + 1))]\<rparr>
      else st)"
proof (cases "i_addrs st ! (NDIRECT L + 1) \<noteq> 0")
  case False
  then show ?thesis by (simp add: free_double_def)
next
  case True
  let ?d = "i_addrs st ! (NDIRECT L + 1)"
  let ?s1 = "ext_bread ?d st"
  have ev: "index_events L ?s1 = index_events L st"
    by (rule ext) (rule index_events_cong, simp_all add: ext_bread_def emit_def)
  have "fold (free_child L ?d) [0..<NINDIRECT L] ?s1
      = ?s1\<lparr>trace := trace ?s1 @ concat (map (index_events L st) (entries L st ?d))\<rparr>"
    unfolding fold_free_child ev entries_def by (simp add: ext_bread_def emit_def)
  with True show ?thesis
    by (simp add: free_double_def Let_def ext_bread_def ext_brelse_def ext_bfree_def emit_def)
qed

text \<open>\<open>itrunc\<close> in one equation: the address table is zero, the size is zero, the
  contents of the blocks are as before, and the trace has grown by \<open>itrunc_events\<close>.\<close>

lemma itrunc_eq:
  assumes len: "length (i_addrs st) = NDIRECT L + 2"
  shows "itrunc L st
    = st\<lparr>i_addrs := replicate (NDIRECT L + 2) 0, i_size := 0,
         trace := trace st @ itrunc_events L st\<rparr>"
proof -
  let ?N = "NDIRECT L"
  let ?A = "i_addrs st"
  let ?dir = "map (Bfree (i_dev st)) (filter (\<lambda>a. a \<noteq> 0) (take ?N ?A))"
  let ?ind = "if ?A ! ?N \<noteq> 0 then index_events L st (?A ! ?N) else []"
  let ?dbl = "if ?A ! (?N + 1) \<noteq> 0
        then Bread (i_dev st) (?A ! (?N + 1))
             # concat (map (index_events L st) (entries L st (?A ! (?N + 1))))
             @ [Brelse (?A ! (?N + 1)), Bfree (i_dev st) (?A ! (?N + 1))]
        else []"
  let ?s1 = "st\<lparr>i_addrs := replicate ?N 0 @ drop ?N ?A, trace := trace st @ ?dir\<rparr>"
  let ?s2 = "st\<lparr>i_addrs := replicate (Suc ?N) 0 @ drop (Suc ?N) ?A, trace := trace st @ ?dir @ ?ind\<rparr>"
  let ?s3 = "st\<lparr>i_addrs := replicate (Suc (Suc ?N)) 0 @ drop (Suc (Suc ?N)) ?A,
      trace := trace st @ ?dir @ ?ind @ ?dbl\<rparr>"
  from len have n0: "?N < length ?A" and n1: "Suc ?N < length ?A"
    by simp_all
  have s1: "free_direct L st = ?s1"
    using len by (simp add: free_direct_eq)
  have at1: "i_addrs ?s1 ! ?N = ?A ! ?N"
    using n0 by (simp add: zeroed_prefix_nth)
  have s2: "free_indirect L ?s1 = ?s2"
  proof (cases "?A ! ?N = 0")
    case True
    with at1 zeroed_prefix_keep [OF n0 True] show ?thesis
      by (simp add: free_indirect_eq)
  next
    case False
    with at1 zeroed_prefix_update [OF n0] show ?thesis
      by (simp add: free_indirect_eq index_events_frame)
  qed
  have at2: "i_addrs ?s2 ! (?N + 1) = ?A ! (?N + 1)"
    using n1 zeroed_prefix_nth [of "Suc ?N" "Suc ?N" ?A] by simp
  have s3: "free_double L ?s2 = ?s3"
  proof (cases "?A ! (?N + 1) = 0")
    case True
    with at2 zeroed_prefix_keep [OF n1] show ?thesis
      by (simp add: free_double_eq)
  next
    case False
    with at2 zeroed_prefix_update [OF n1] show ?thesis
      by (simp add: free_double_eq index_events_frame entries_frame)
  qed
  have all: "replicate (Suc (Suc ?N)) 0 @ drop (Suc (Suc ?N)) ?A = replicate (?N + 2) 0"
    using len by simp
  show ?thesis
    unfolding itrunc_def s1 s2 s3 all
    by (simp add: ext_iupdate_def emit_def itrunc_events_def)
qed

lemmas ext_defs = ext_balloc_def ext_bread_def ext_log_write_def ext_brelse_def ext_bfree_def
  ext_iupdate_def emit_def

lemma bmap_direct:
  assumes "bn < NDIRECT L"
  shows "bmap L st bn =
     (if i_addrs st ! bn \<noteq> 0 then Inr (i_addrs st ! bn, st)
      else Inr (stock st (nalloc st),
                st\<lparr>i_addrs := (i_addrs st)[bn := stock st (nalloc st)],
                    nalloc := nalloc st + 1,
                    trace := trace st @ [Balloc (i_dev st) (stock st (nalloc st))]\<rparr>))"
  using assms by (simp add: bmap_def inode_entry_def ext_defs)

lemma bmap_indirect:
  assumes "NDIRECT L \<le> bn" "bn < NDIRECT L + NINDIRECT L"
  shows "bmap L st bn =
     (let j = bn - NDIRECT L;
          a0 = i_addrs st ! NDIRECT L;
          blk = (if a0 = 0 then stock st (nalloc st) else a0);
          k1 = (if a0 = 0 then nalloc st + 1 else nalloc st);
          e = blocks st blk j;
          r = (if e = 0 then stock st k1 else e)
      in Inr (r,
              st\<lparr>i_addrs := (if a0 = 0 then (i_addrs st)[NDIRECT L := blk] else i_addrs st),
                  blocks := (if e = 0 then (blocks st)(blk := (blocks st blk)(j := r)) else blocks st),
                  nalloc := (if e = 0 then k1 + 1 else k1),
                  trace := trace st
                    @ (if a0 = 0 then [Balloc (i_dev st) blk] else [])
                    @ [Bread (i_dev st) blk]
                    @ (if e = 0 then [Balloc (i_dev st) r, Log_write blk] else [])
                    @ [Brelse blk]\<rparr>))"
proof -
  from assms have "\<not> bn < NDIRECT L" "bn - NDIRECT L < NINDIRECT L"
    by simp_all
  then show ?thesis
    by (simp add: bmap_def inode_entry_def block_entry_def ext_defs Let_def)
qed

lemma bmap_double:
  assumes "NDIRECT L + NINDIRECT L \<le> bn"
    and "bn < NDIRECT L + NINDIRECT L + NINDIRECT L * NINDIRECT L"
  shows "bmap L st bn =
     (let off = bn - NDIRECT L - NINDIRECT L;
          outer = off div NINDIRECT L;
          inner = off mod NINDIRECT L;
          a0 = i_addrs st ! (NDIRECT L + 1);
          dbl = (if a0 = 0 then stock st (nalloc st) else a0);
          k1 = (if a0 = 0 then nalloc st + 1 else nalloc st);
          e1 = blocks st dbl outer;
          child = (if e1 = 0 then stock st k1 else e1);
          k2 = (if e1 = 0 then k1 + 1 else k1);
          B1 = (if e1 = 0 then (blocks st)(dbl := (blocks st dbl)(outer := child)) else blocks st);
          e2 = B1 child inner;
          r = (if e2 = 0 then stock st k2 else e2)
      in Inr (r,
              st\<lparr>i_addrs := (if a0 = 0 then (i_addrs st)[NDIRECT L + 1 := dbl] else i_addrs st),
                  blocks := (if e2 = 0 then B1(child := (B1 child)(inner := r)) else B1),
                  nalloc := (if e2 = 0 then k2 + 1 else k2),
                  trace := trace st
                    @ (if a0 = 0 then [Balloc (i_dev st) dbl] else [])
                    @ [Bread (i_dev st) dbl]
                    @ (if e1 = 0 then [Balloc (i_dev st) child, Log_write dbl] else [])
                    @ [Bread (i_dev st) child]
                    @ (if e2 = 0 then [Balloc (i_dev st) r, Log_write child] else [])
                    @ [Brelse child, Brelse dbl]\<rparr>))"
proof -
  from assms have r1: "\<not> bn < NDIRECT L" and r2: "\<not> bn - NDIRECT L < NINDIRECT L"
    by linarith+
  from assms have r3: "bn - NDIRECT L - NINDIRECT L < ND_INDIRECT L"
    unfolding ND_INDIRECT_def by linarith
  let ?off = "bn - NDIRECT L - NINDIRECT L"
  let ?outer = "?off div NINDIRECT L"
  let ?inner = "?off mod NINDIRECT L"
  obtain db st1 where p1: "inode_entry (NDIRECT L + 1) st = (db, st1)"
    by (cases "inode_entry (NDIRECT L + 1) st")
  obtain ch st3 where p2: "block_entry db ?outer (ext_bread db st1) = (ch, st3)"
    by (cases "block_entry db ?outer (ext_bread db st1)")
  obtain r st5 where p3: "block_entry ch ?inner (ext_bread ch st3) = (r, st5)"
    by (cases "block_entry ch ?inner (ext_bread ch st3)")
  have run: "bmap L st bn = Inr (r, ext_brelse db (ext_brelse ch st5))"
    by (simp only: bmap_def Let_def r1 r2 r3 if_False if_True p1 p2 p3 prod.case)
  show ?thesis
  proof (cases "i_addrs st ! (NDIRECT L + 1) = 0")
    case True
    note a0 = this
    from p1 a0 have q1: "db = stock st (nalloc st)"
      "st1 = st\<lparr>i_addrs := (i_addrs st)[NDIRECT L + 1 := stock st (nalloc st)],
          nalloc := nalloc st + 1,
          trace := trace st @ [Balloc (i_dev st) (stock st (nalloc st))]\<rparr>"
      by (auto simp: inode_entry_def ext_defs)
    show ?thesis
    proof (cases "blocks st db ?outer = 0")
      case True
      note e1 = this
      from p2 e1 have q2: "ch = stock st (nalloc st + 1)" "blocks st3 = (blocks st)(db := (blocks st db)(?outer := ch))"
        by (auto simp: block_entry_def ext_defs q1)
      show ?thesis
      proof (cases "blocks st3 ch ?inner = 0")
        case True
        with p2 p3 e1 a0 show ?thesis
          unfolding run by (auto simp: block_entry_def ext_defs q1 Let_def)
      next
        case False
        with p2 p3 e1 a0 show ?thesis
          unfolding run by (auto simp: block_entry_def ext_defs q1 Let_def)
      qed
    next
      case False
      note e1 = this
      from p2 e1 have q2: "ch = blocks st db ?outer" "blocks st3 = blocks st"
        by (auto simp: block_entry_def ext_defs q1)
      show ?thesis
      proof (cases "blocks st3 ch ?inner = 0")
        case True
        with p2 p3 e1 a0 show ?thesis
          unfolding run by (auto simp: block_entry_def ext_defs q1 Let_def)
      next
        case False
        with p2 p3 e1 a0 show ?thesis
          unfolding run by (auto simp: block_entry_def ext_defs q1 Let_def)
      qed
    qed
  next
    case False
    note a0 = this
    from p1 a0 have q1: "db = i_addrs st ! (NDIRECT L + 1)" "st1 = st"
      by (auto simp: inode_entry_def)
    show ?thesis
    proof (cases "blocks st db ?outer = 0")
      case True
      note e1 = this
      from p2 e1 have q2: "ch = stock st (nalloc st)" "blocks st3 = (blocks st)(db := (blocks st db)(?outer := ch))"
        by (auto simp: block_entry_def ext_defs q1)
      show ?thesis
      proof (cases "blocks st3 ch ?inner = 0")
        case True
        with p2 p3 e1 a0 show ?thesis
          unfolding run by (auto simp: block_entry_def ext_defs q1 Let_def)
      next
        case False
        with p2 p3 e1 a0 show ?thesis
          unfolding run by (auto simp: block_entry_def ext_defs q1 Let_def)
      qed
    next
      case False
      note e1 = this
      from p2 e1 have q2: "ch = blocks st db ?outer" "blocks st3 = blocks st"
        by (auto simp: block_entry_def ext_defs q1)
      show ?thesis
      proof (cases "blocks st3 ch ?inner = 0")
        case True
        with p2 p3 e1 a0 show ?thesis
          unfolding run by (auto simp: block_entry_def ext_defs q1 Let_def)
      next
        case False
        with p2 p3 e1 a0 show ?thesis
          unfolding run by (auto simp: block_entry_def ext_defs q1 Let_def)
      qed
    qed
  qed
qed

lemma bmap_beyond:
  assumes "NDIRECT L + NINDIRECT L + NINDIRECT L * NINDIRECT L \<le> bn"
  shows "bmap L st bn = Inl ''bmap: out of range''"
proof -
  from assms have "\<not> bn < NDIRECT L" "\<not> bn - NDIRECT L < NINDIRECT L"
    by linarith+
  moreover from assms have "\<not> bn - NDIRECT L - NINDIRECT L < ND_INDIRECT L"
    unfolding ND_INDIRECT_def by linarith
  ultimately show ?thesis
    by (simp add: bmap_def Let_def)
qed

subsection \<open>Two small file systems\<close>

text \<open>A layout with two direct entries and two entries per index block; an inode
  without blocks, and one with a direct block, a single-indirect block with one
  entry, and a double-indirect block with two children.\<close>

definition L0 :: fs_layout where
  "L0 = \<lparr>NDIRECT = 2, NINDIRECT = 2\<rparr>"

definition empty0 :: fs where
  "empty0 =
     \<lparr>i_dev = 1, i_size = 0, i_addrs = [0, 0, 0, 0], blocks = (\<lambda>_ _. 0),
      stock = (\<lambda>k. 100 + k), nalloc = 0, trace = []\<rparr>"

definition tree0 :: fs where
  "tree0 =
     \<lparr>i_dev = 1, i_size = 7168, i_addrs = [10, 0, 20, 30],
      blocks = (\<lambda>_ _. 0)
        (20 := (\<lambda>_. 0)(0 := 21),
         30 := (\<lambda>_. 0)(0 := 31, 1 := 32),
         31 := (\<lambda>_. 0)(1 := 41),
         32 := (\<lambda>_. 0)(0 := 42, 1 := 43)),
      stock = (\<lambda>k. 100 + k), nalloc = 0, trace = []\<rparr>"

subsection \<open>\<open>bmap\<close> by ranges\<close>

text \<open>
  C2. For \<open>bn\<close> below \<open>NDIRECT\<close>, \<open>bmap\<close> returns the entry of the address table, or
  stores and returns a freshly allocated block when the entry is 0. In the next
  \<open>NINDIRECT\<close> indices it goes through the single-indirect block \<open>blk\<close> (allocated on
  demand), reads it, returns entry \<open>bn - NDIRECT\<close> or allocates it, and then logs \<open>blk\<close>,
  and releases \<open>blk\<close>. In the next \<open>NINDIRECT * NINDIRECT\<close> indices it goes through
  the double-indirect block \<open>dbl\<close> and its child \<open>outer = off div NINDIRECT\<close>, to entry
  \<open>inner = off mod NINDIRECT\<close> of the child; each level is allocated on demand, an
  index block is logged exactly when an entry is written into it, and the child is
  released before \<open>dbl\<close>. Beyond, it panics.
\<close>

theorem C2_bmap_ranges:
  "(bn < NDIRECT L \<longrightarrow>
      bmap L st bn =
        (if i_addrs st ! bn \<noteq> 0 then Inr (i_addrs st ! bn, st)
         else Inr (stock st (nalloc st),
                   st\<lparr>i_addrs := (i_addrs st)[bn := stock st (nalloc st)],
                       nalloc := nalloc st + 1,
                       trace := trace st @ [Balloc (i_dev st) (stock st (nalloc st))]\<rparr>)))
   \<and> (NDIRECT L \<le> bn \<and> bn < NDIRECT L + NINDIRECT L \<longrightarrow>
      bmap L st bn =
        (let j = bn - NDIRECT L;
             a0 = i_addrs st ! NDIRECT L;
             blk = (if a0 = 0 then stock st (nalloc st) else a0);
             k1 = (if a0 = 0 then nalloc st + 1 else nalloc st);
             e = blocks st blk j;
             r = (if e = 0 then stock st k1 else e)
         in Inr (r,
                 st\<lparr>i_addrs := (if a0 = 0 then (i_addrs st)[NDIRECT L := blk] else i_addrs st),
                     blocks := (if e = 0 then (blocks st)(blk := (blocks st blk)(j := r)) else blocks st),
                     nalloc := (if e = 0 then k1 + 1 else k1),
                     trace := trace st
                       @ (if a0 = 0 then [Balloc (i_dev st) blk] else [])
                       @ [Bread (i_dev st) blk]
                       @ (if e = 0 then [Balloc (i_dev st) r, Log_write blk] else [])
                       @ [Brelse blk]\<rparr>)))
   \<and> (NDIRECT L + NINDIRECT L \<le> bn
        \<and> bn < NDIRECT L + NINDIRECT L + NINDIRECT L * NINDIRECT L \<longrightarrow>
      bmap L st bn =
        (let off = bn - NDIRECT L - NINDIRECT L;
             outer = off div NINDIRECT L;
             inner = off mod NINDIRECT L;
             a0 = i_addrs st ! (NDIRECT L + 1);
             dbl = (if a0 = 0 then stock st (nalloc st) else a0);
             k1 = (if a0 = 0 then nalloc st + 1 else nalloc st);
             e1 = blocks st dbl outer;
             child = (if e1 = 0 then stock st k1 else e1);
             k2 = (if e1 = 0 then k1 + 1 else k1);
             B1 = (if e1 = 0 then (blocks st)(dbl := (blocks st dbl)(outer := child)) else blocks st);
             e2 = B1 child inner;
             r = (if e2 = 0 then stock st k2 else e2)
         in Inr (r,
                 st\<lparr>i_addrs := (if a0 = 0 then (i_addrs st)[NDIRECT L + 1 := dbl] else i_addrs st),
                     blocks := (if e2 = 0 then B1(child := (B1 child)(inner := r)) else B1),
                     nalloc := (if e2 = 0 then k2 + 1 else k2),
                     trace := trace st
                       @ (if a0 = 0 then [Balloc (i_dev st) dbl] else [])
                       @ [Bread (i_dev st) dbl]
                       @ (if e1 = 0 then [Balloc (i_dev st) child, Log_write dbl] else [])
                       @ [Bread (i_dev st) child]
                       @ (if e2 = 0 then [Balloc (i_dev st) r, Log_write child] else [])
                       @ [Brelse child, Brelse dbl]\<rparr>)))
   \<and> (NDIRECT L + NINDIRECT L + NINDIRECT L * NINDIRECT L \<le> bn \<longrightarrow>
      bmap L st bn = Inl ''bmap: out of range'')"
  using bmap_direct [of bn L st] bmap_indirect [of L bn st] bmap_double [of L bn st]
    bmap_beyond [of L bn st]
  by (intro conjI impI) (erule conjE | assumption)+

theorem C2_bmap_ranges_witness:
  "0 < NDIRECT L0
   \<and> bmap L0 tree0 0 = Inr (10, tree0)
   \<and> bmap L0 empty0 0 =
       Inr (100, empty0\<lparr>i_addrs := [100, 0, 0, 0], nalloc := 1, trace := [Balloc 1 100]\<rparr>)
   \<and> (NDIRECT L0 \<le> 3 \<and> 3 < NDIRECT L0 + NINDIRECT L0)
   \<and> (case bmap L0 empty0 3 of
        Inl msg \<Rightarrow> False
      | Inr (r, s) \<Rightarrow>
          r = 101 \<and> i_addrs s = [0, 0, 100, 0] \<and> blocks s 100 1 = 101
          \<and> trace s = [Balloc 1 100, Bread 1 100, Balloc 1 101, Log_write 100, Brelse 100])
   \<and> (case bmap L0 tree0 2 of
        Inl msg \<Rightarrow> False
      | Inr (r, s) \<Rightarrow> r = 21 \<and> i_addrs s = [10, 0, 20, 30] \<and> trace s = [Bread 1 20, Brelse 20])
   \<and> (NDIRECT L0 + NINDIRECT L0 \<le> 5
      \<and> 5 < NDIRECT L0 + NINDIRECT L0 + NINDIRECT L0 * NINDIRECT L0)
   \<and> (case bmap L0 empty0 5 of
        Inl msg \<Rightarrow> False
      | Inr (r, s) \<Rightarrow>
          r = 102 \<and> i_addrs s = [0, 0, 0, 100] \<and> blocks s 100 0 = 101 \<and> blocks s 101 1 = 102
          \<and> trace s = [Balloc 1 100, Bread 1 100, Balloc 1 101, Log_write 100, Bread 1 101,
                        Balloc 1 102, Log_write 101, Brelse 101, Brelse 100])
   \<and> (case bmap L0 tree0 6 of
        Inl msg \<Rightarrow> False
      | Inr (r, s) \<Rightarrow>
          r = 42 \<and> blocks s = blocks tree0
          \<and> trace s = [Bread 1 30, Bread 1 32, Brelse 32, Brelse 30])
   \<and> NDIRECT L0 + NINDIRECT L0 + NINDIRECT L0 * NINDIRECT L0 \<le> 8
   \<and> bmap L0 tree0 8 = Inl ''bmap: out of range''"
proof -
  have h1: "0 < NDIRECT L0"
    and h2: "NDIRECT L0 \<le> 2 \<and> 2 < NDIRECT L0 + NINDIRECT L0"
    and h3: "NDIRECT L0 \<le> 3 \<and> 3 < NDIRECT L0 + NINDIRECT L0"
    and h5: "NDIRECT L0 + NINDIRECT L0 \<le> 5
      \<and> 5 < NDIRECT L0 + NINDIRECT L0 + NINDIRECT L0 * NINDIRECT L0"
    and h6: "NDIRECT L0 + NINDIRECT L0 \<le> 6
      \<and> 6 < NDIRECT L0 + NINDIRECT L0 + NINDIRECT L0 * NINDIRECT L0"
    and h8: "NDIRECT L0 + NINDIRECT L0 + NINDIRECT L0 * NINDIRECT L0 \<le> 8"
    by (simp_all add: L0_def)
  note d = C2_bmap_ranges [THEN conjunct1, rule_format]
  note i = C2_bmap_ranges [THEN conjunct2, THEN conjunct1, rule_format]
  note w = C2_bmap_ranges [THEN conjunct2, THEN conjunct2, THEN conjunct1, rule_format]
  note o = C2_bmap_ranges [THEN conjunct2, THEN conjunct2, THEN conjunct2, rule_format]
  have a: "bmap L0 tree0 0 = Inr (10, tree0)"
    using d [OF h1, of tree0] by (simp add: tree0_def)
  have b: "bmap L0 empty0 0 =
       Inr (100, empty0\<lparr>i_addrs := [100, 0, 0, 0], nalloc := 1, trace := [Balloc 1 100]\<rparr>)"
    using d [OF h1, of empty0] by (simp add: empty0_def)
  have c: "case bmap L0 empty0 3 of
        Inl msg \<Rightarrow> False
      | Inr (r, s) \<Rightarrow>
          r = 101 \<and> i_addrs s = [0, 0, 100, 0] \<and> blocks s 100 1 = 101
          \<and> trace s = [Balloc 1 100, Bread 1 100, Balloc 1 101, Log_write 100, Brelse 100]"
    unfolding i [OF h3, of empty0] by (simp add: empty0_def L0_def Let_def)
  have e: "case bmap L0 tree0 2 of
        Inl msg \<Rightarrow> False
      | Inr (r, s) \<Rightarrow> r = 21 \<and> i_addrs s = [10, 0, 20, 30] \<and> trace s = [Bread 1 20, Brelse 20]"
    unfolding i [OF h2, of tree0] by (simp add: tree0_def L0_def Let_def)
  have f: "case bmap L0 empty0 5 of
        Inl msg \<Rightarrow> False
      | Inr (r, s) \<Rightarrow>
          r = 102 \<and> i_addrs s = [0, 0, 0, 100] \<and> blocks s 100 0 = 101 \<and> blocks s 101 1 = 102
          \<and> trace s = [Balloc 1 100, Bread 1 100, Balloc 1 101, Log_write 100, Bread 1 101,
                        Balloc 1 102, Log_write 101, Brelse 101, Brelse 100]"
    unfolding w [OF h5, of empty0] by (simp add: empty0_def L0_def Let_def)
  have g: "case bmap L0 tree0 6 of
        Inl msg \<Rightarrow> False
      | Inr (r, s) \<Rightarrow>
          r = 42 \<and> blocks s = blocks tree0
          \<and> trace s = [Bread 1 30, Bread 1 32, Brelse 32, Brelse 30]"
    unfolding w [OF h6, of tree0] by (simp add: tree0_def L0_def Let_def)
  note p = o [OF h8, of tree0]
  show ?thesis
    by (rule conjI [OF h1 conjI [OF a conjI [OF b conjI [OF h3 conjI [OF c conjI [OF e
        conjI [OF h5 conjI [OF f conjI [OF g conjI [OF h8 p]]]]]]]]]])
qed

subsection \<open>\<open>itrunc\<close>\<close>

lemma calls_eq: "length (i_addrs st) = NDIRECT L + 2 \<Longrightarrow> calls L st = itrunc_events L st"
  by (simp add: calls_def itrunc_eq)

lemma no_iupdate_before:
  "\<exists>es. itrunc_events L st = es @ [Iupdate] \<and> Iupdate \<notin> set es"
proof -
  let ?es = "map (Bfree (i_dev st)) (filter (\<lambda>a. a \<noteq> 0) (take (NDIRECT L) (i_addrs st)))
     @ (if i_addrs st ! NDIRECT L \<noteq> 0 then index_events L st (i_addrs st ! NDIRECT L) else [])
     @ (if i_addrs st ! (NDIRECT L + 1) \<noteq> 0
        then Bread (i_dev st) (i_addrs st ! (NDIRECT L + 1))
             # concat (map (index_events L st) (entries L st (i_addrs st ! (NDIRECT L + 1))))
             @ [Brelse (i_addrs st ! (NDIRECT L + 1)), Bfree (i_dev st) (i_addrs st ! (NDIRECT L + 1))]
        else [])"
  have idx: "Iupdate \<notin> set (index_events L st blk)" for blk
    by (auto simp: index_events_def)
  then have cat: "Iupdate \<notin> set (concat (map (index_events L st) cs))" for cs
    by auto
  have "itrunc_events L st = ?es @ [Iupdate]"
    by (simp add: itrunc_events_def)
  moreover have "Iupdate \<notin> set ?es"
    using idx cat by auto
  ultimately show ?thesis by blast
qed

text \<open>
  C3. With the address table of \<open>NDIRECT + 2\<close> entries, the \<open>bfree\<close> calls of \<open>itrunc\<close>
  are, in this order and each once, the pointers reachable from the inode as the
  spec lists them: every index block comes right after the entries it holds, the
  double-indirect block comes last. When no block is referenced twice, no block is
  freed twice. The size is then 0 and \<open>iupdate\<close> is the last call, made once.
\<close>

theorem C3_itrunc_frees_reachable:
  "length (i_addrs st) = NDIRECT L + 2 \<longrightarrow>
     trace (itrunc L st) = trace st @ calls L st
     \<and> calls L st = itrunc_events L st
     \<and> freed (calls L st) = reachable L st
     \<and> (distinct (reachable L st) \<longrightarrow> distinct (freed (calls L st)))
     \<and> i_size (itrunc L st) = 0
     \<and> (\<exists>es. calls L st = es @ [Iupdate] \<and> Iupdate \<notin> set es)"
proof
  assume len: "length (i_addrs st) = NDIRECT L + 2"
  note c = calls_eq [OF len]
  have "trace (itrunc L st) = trace st @ calls L st"
    by (simp add: c itrunc_eq [OF len])
  moreover have "freed (calls L st) = reachable L st"
    by (simp add: c freed_itrunc_events)
  moreover have "i_size (itrunc L st) = 0"
    by (simp add: itrunc_eq [OF len])
  moreover have "\<exists>es. calls L st = es @ [Iupdate] \<and> Iupdate \<notin> set es"
    unfolding c by (rule no_iupdate_before)
  ultimately show "trace (itrunc L st) = trace st @ calls L st
     \<and> calls L st = itrunc_events L st
     \<and> freed (calls L st) = reachable L st
     \<and> (distinct (reachable L st) \<longrightarrow> distinct (freed (calls L st)))
     \<and> i_size (itrunc L st) = 0
     \<and> (\<exists>es. calls L st = es @ [Iupdate] \<and> Iupdate \<notin> set es)"
    using c by simp
qed

theorem C3_itrunc_frees_reachable_witness:
  "length (i_addrs tree0) = NDIRECT L0 + 2
   \<and> reachable L0 tree0 = [10, 21, 20, 41, 31, 42, 43, 32, 30]
   \<and> distinct (reachable L0 tree0)
   \<and> trace (itrunc L0 tree0) = trace tree0 @ calls L0 tree0
   \<and> freed (calls L0 tree0) = [10, 21, 20, 41, 31, 42, 43, 32, 30]
   \<and> distinct (freed (calls L0 tree0))
   \<and> i_size (itrunc L0 tree0) = 0
   \<and> (\<exists>es. calls L0 tree0 = es @ [Iupdate] \<and> Iupdate \<notin> set es)"
proof -
  have len: "length (i_addrs tree0) = NDIRECT L0 + 2"
    by (simp add: tree0_def L0_def)
  have r: "reachable L0 tree0 = [10, 21, 20, 41, 31, 42, 43, 32, 30]"
    by code_simp
  have d: "distinct (reachable L0 tree0)"
    unfolding r by simp
  note t = C3_itrunc_frees_reachable [rule_format, OF len]
  from t d have f: "distinct (freed (calls L0 tree0))"
    by blast
  from t have t1: "trace (itrunc L0 tree0) = trace tree0 @ calls L0 tree0"
    and t3: "freed (calls L0 tree0) = reachable L0 tree0"
    and t5: "i_size (itrunc L0 tree0) = 0"
    and t6: "\<exists>es. calls L0 tree0 = es @ [Iupdate] \<and> Iupdate \<notin> set es"
    by blast+
  note t3' = t3 [unfolded r]
  show ?thesis
    by (rule conjI [OF len conjI [OF r conjI [OF d conjI [OF t1 conjI [OF t3' conjI [OF f
        conjI [OF t5 t6]]]]]]])
qed

text \<open>
  C6, as the code has it. After \<open>itrunc\<close> every entry of the inode's address table
  (the direct entries, the single-indirect and the double-indirect pointer) is 0;
  the index blocks are only read, so the entries inside them read as they did
  before the call.
\<close>

theorem C6_itrunc_zeroes_address_table:
  "length (i_addrs st) = NDIRECT L + 2 \<longrightarrow>
     i_addrs (itrunc L st) = replicate (NDIRECT L + 2) 0
     \<and> blocks (itrunc L st) = blocks st"
  by (simp add: itrunc_eq)

theorem C6_itrunc_zeroes_address_table_witness:
  "length (i_addrs tree0) = NDIRECT L0 + 2
   \<and> i_addrs (itrunc L0 tree0) = [0, 0, 0, 0]
   \<and> blocks (itrunc L0 tree0) = blocks tree0"
proof -
  have len: "length (i_addrs tree0) = NDIRECT L0 + 2"
    by (simp add: tree0_def L0_def)
  have "replicate (NDIRECT L0 + 2) (0::nat) = [0, 0, 0, 0]"
    by (simp add: L0_def numeral_eq_Suc)
  with C6_itrunc_zeroes_address_table [of tree0 L0, rule_format, OF len] len show ?thesis
    by simp
qed

text \<open>C6 as stated fails: after \<open>itrunc\<close> the single-indirect block 20 still holds the
  pointer 21, the double-indirect block 30 the pointers 31 and 32, and the child 31
  the pointer 41.\<close>

theorem C6_counterexample:
  "i_addrs tree0 ! NDIRECT L0 = 20 \<and> i_addrs tree0 ! (NDIRECT L0 + 1) = 30
   \<and> freed (calls L0 tree0) = [10, 21, 20, 41, 31, 42, 43, 32, 30]
   \<and> blocks (itrunc L0 tree0) 20 0 = 21
   \<and> blocks (itrunc L0 tree0) 30 0 = 31
   \<and> blocks (itrunc L0 tree0) 30 1 = 32
   \<and> blocks (itrunc L0 tree0) 31 1 = 41"
  by code_simp

text \<open>
  C10. A second \<open>itrunc\<close> finds the address table all zero: it makes no \<open>bfree\<close> and no
  \<open>bread\<close> call, its only call is \<open>iupdate\<close>, and the inode and the blocks are as the
  first call left them.
\<close>

theorem C10_itrunc_idempotent:
  "length (i_addrs st) = NDIRECT L + 2 \<longrightarrow>
     itrunc L (itrunc L st) = (itrunc L st)\<lparr>trace := trace (itrunc L st) @ [Iupdate]\<rparr>
     \<and> calls L (itrunc L st) = [Iupdate]
     \<and> freed (calls L (itrunc L st)) = []
     \<and> bread_calls (calls L (itrunc L st)) = []
     \<and> i_addrs (itrunc L (itrunc L st)) = replicate (NDIRECT L + 2) 0
     \<and> i_size (itrunc L (itrunc L st)) = 0"
proof
  assume len: "length (i_addrs st) = NDIRECT L + 2"
  let ?s = "itrunc L st"
  have a: "i_addrs ?s = replicate (NDIRECT L + 2) 0" and z: "i_size ?s = 0"
    by (simp_all add: itrunc_eq [OF len])
  then have len': "length (i_addrs ?s) = NDIRECT L + 2"
    by simp
  define n where "n = NDIRECT L + 2"
  have z0: "filter (\<lambda>a. a \<noteq> 0) (take (NDIRECT L) (replicate n (0::nat))) = []"
    by simp
  have "NDIRECT L < n" "NDIRECT L + 1 < n"
    by (simp_all add: n_def)
  then have z1: "replicate n (0::nat) ! NDIRECT L = 0" "replicate n (0::nat) ! (NDIRECT L + 1) = 0"
    by (simp_all only: nth_replicate)
  have ev: "itrunc_events L ?s = [Iupdate]"
    unfolding itrunc_events_def a n_def [symmetric] z0 z1 by simp
  have again: "itrunc L ?s = ?s\<lparr>trace := trace ?s @ [Iupdate]\<rparr>"
    unfolding itrunc_eq [OF len'] ev using a z by simp
  have c: "calls L ?s = [Iupdate]"
    by (simp add: calls_eq [OF len'] ev)
  show "itrunc L ?s = ?s\<lparr>trace := trace ?s @ [Iupdate]\<rparr>
     \<and> calls L ?s = [Iupdate]
     \<and> freed (calls L ?s) = []
     \<and> bread_calls (calls L ?s) = []
     \<and> i_addrs (itrunc L ?s) = replicate (NDIRECT L + 2) 0
     \<and> i_size (itrunc L ?s) = 0"
    unfolding c using again a z by simp
qed

theorem C10_itrunc_idempotent_witness:
  "length (i_addrs tree0) = NDIRECT L0 + 2
   \<and> itrunc L0 (itrunc L0 tree0) = (itrunc L0 tree0)\<lparr>trace := trace (itrunc L0 tree0) @ [Iupdate]\<rparr>
   \<and> calls L0 (itrunc L0 tree0) = [Iupdate]
   \<and> freed (calls L0 (itrunc L0 tree0)) = []
   \<and> bread_calls (calls L0 (itrunc L0 tree0)) = []
   \<and> i_addrs (itrunc L0 (itrunc L0 tree0)) = replicate (NDIRECT L0 + 2) 0
   \<and> i_size (itrunc L0 (itrunc L0 tree0)) = 0"
proof -
  have len: "length (i_addrs tree0) = NDIRECT L0 + 2"
    by (simp add: tree0_def L0_def)
  from C10_itrunc_idempotent [of tree0 L0, rule_format, OF len] len show ?thesis
    by (rule_tac conjI)
qed

end
